theory Spec2Isabelle
  imports Main "HOL-Library.Word"
begin

section \<open>The factorization worker (worker.js)\<close>

text \<open>
  The worker factors an arbitrary-precision integer. BigInt values are modelled as \<open>int\<close>,
  the counters of the sieve (JavaScript Numbers far below \<open>2^53\<close>) as \<open>nat\<close>, and the cells of
  the \<open>Uint8Array\<close> as \<open>8 word\<close>.

  A call either returns a value, throws, or does not return. The last outcome stands
  for an infinite loop of the JavaScript; in the functions that carry a \<open>fuel\<close> argument it
  also stands for "not finished within \<open>fuel\<close> loop iterations", so that a call diverges
  exactly when it is \<open>NoReturn\<close> for every amount of fuel.
\<close>

subsection \<open>Outcomes and BigInt operators\<close>

datatype js_error = RangeError | SyntaxError

datatype 'a outcome = Returns 'a | Throws js_error | NoReturn

fun andThen :: "'a outcome \<Rightarrow> ('a \<Rightarrow> 'b outcome) \<Rightarrow> 'b outcome" where
  "andThen (Returns v) f = f v"
| "andThen (Throws e) f = Throws e"
| "andThen NoReturn f = NoReturn"

text \<open>
  BigInt \<open>/\<close> truncates towards zero and \<open>%\<close> takes the sign of the dividend. Both throw a
  RangeError on a zero divisor; the callers below test for that case wherever the divisor
  can be zero.
\<close>

definition bigint_div :: "int \<Rightarrow> int \<Rightarrow> int" where
  "bigint_div a b = sgn a * sgn b * (\<bar>a\<bar> div \<bar>b\<bar>)"

definition bigint_rem :: "int \<Rightarrow> int \<Rightarrow> int" where
  "bigint_rem a b = sgn a * (\<bar>a\<bar> mod \<bar>b\<bar>)"

subsection \<open>generatePrimes: the sieve of Eratosthenes\<close>

definition PRIME_LIMIT :: nat where
  "PRIME_LIMIT = 100000"

text \<open>
  The inner loop \<open>for (let i = p * p; i <= limit; i += p) isPrime[i] = 0\<close>. The step \<open>p\<close> is at
  least 2 at its only call site; the test \<open>0 < p\<close> makes the recursion well-founded for every
  argument.
\<close>

function markMultiples :: "nat \<Rightarrow> nat \<Rightarrow> nat \<Rightarrow> 8 word list \<Rightarrow> 8 word list" where
  "markMultiples limit p i isPrime =
     (if i \<le> limit \<and> 0 < p then markMultiples limit p (i + p) (isPrime[i := 0]) else isPrime)"
  by pat_completeness auto
termination
  by (relation "measure (\<lambda>(limit, p, i, isPrime). Suc limit - i)") auto

declare markMultiples.simps [simp del]

text \<open>The outer loop \<open>for (let p = 2; p * p <= limit; p++)\<close>, entered with \<open>p = 2\<close>.\<close>

function sieveLoop :: "nat \<Rightarrow> nat \<Rightarrow> 8 word list \<Rightarrow> 8 word list" where
  "sieveLoop limit p isPrime =
     (if p * p \<le> limit
      then sieveLoop limit (p + 1)
             (if isPrime ! p \<noteq> 0 then markMultiples limit p (p * p) isPrime else isPrime)
      else isPrime)"
  by pat_completeness auto
termination
proof (relation "measure (\<lambda>(limit, p, isPrime). Suc limit - p)")
  show "wf (measure (\<lambda>(limit, p, isPrime). Suc limit - p))" by simp
next
  fix limit p :: nat and isPrime :: "8 word list"
  assume "p * p \<le> limit"
  moreover have "p \<le> p * p" by (cases p) simp_all
  ultimately have "p \<le> limit" by (rule order_trans [rotated])
  then show "((limit, p + 1,
               if isPrime ! p \<noteq> 0 then markMultiples limit p (p * p) isPrime else isPrime),
              (limit, p, isPrime)) \<in> measure (\<lambda>(limit, p, isPrime). Suc limit - p)"
    by simp
qed

declare sieveLoop.simps [simp del]

text \<open>
  A write to a typed array outside its bounds is ignored, as \<open>xs[i := v]\<close> is in HOL (this
  matters for \<open>isPrime[1] = 0\<close> when \<open>limit = 0\<close> only). The last loop pushes \<open>BigInt(i)\<close> for
  every index still marked.
\<close>

definition generatePrimes :: "nat \<Rightarrow> int list" where
  "generatePrimes limit =
     (let isPrime = (replicate (limit + 1) (1 :: 8 word))[1 := 0, 0 := 0];
          isPrime = sieveLoop limit 2 isPrime
      in map int (filter (\<lambda>i. isPrime ! i \<noteq> 0) [0..<limit + 1]))"

definition smallPrimes :: "int list" where
  "smallPrimes = generatePrimes PRIME_LIMIT"

subsection \<open>gcd and modPow\<close>

function gcd_js :: "int \<Rightarrow> int \<Rightarrow> int" where
  "gcd_js a b = (if b > 0 then gcd_js b (bigint_rem a b) else a)"
  by pat_completeness auto
termination
proof (relation "measure (\<lambda>(a, b). nat b)")
  show "wf (measure (\<lambda>(a, b). nat b))" by simp
next
  fix a b :: int
  assume "0 < b"
  then have "\<bar>a\<bar> mod \<bar>b\<bar> < b" by simp
  moreover have "0 \<le> \<bar>a\<bar> mod \<bar>b\<bar>"
    using \<open>0 < b\<close> by simp
  then have "sgn a * (\<bar>a\<bar> mod \<bar>b\<bar>) \<le> \<bar>a\<bar> mod \<bar>b\<bar>"
    by (cases "a < 0"; cases "a = 0") (simp_all add: sgn_if)
  ultimately have "bigint_rem a b < b"
    unfolding bigint_rem_def by (rule order_le_less_trans [rotated])
  then show "((b, bigint_rem a b), (a, b)) \<in> measure (\<lambda>(a, b). nat b)"
    using \<open>0 < b\<close> by simp
qed

declare gcd_js.simps [simp del]

text \<open>The loop of \<open>modPow\<close>, entered after \<open>base %= mod\<close> has succeeded.\<close>

function modPowLoop :: "int \<Rightarrow> int \<Rightarrow> int \<Rightarrow> int \<Rightarrow> int" where
  "modPowLoop res base exp m =
     (if exp > 0
      then modPowLoop (if bigint_rem exp 2 = 1 then bigint_rem (res * base) m else res)
             (bigint_rem (base * base) m) (bigint_div exp 2) m
      else res)"
  by pat_completeness auto
termination
  by (relation "measure (\<lambda>(res, base, exp, m). nat exp)")
     (auto simp: bigint_div_def sgn_if)

declare modPowLoop.simps [simp del]

definition modPow :: "int \<Rightarrow> int \<Rightarrow> int \<Rightarrow> int outcome" where
  "modPow base exp m =
     (if m = 0 then Throws RangeError else Returns (modPowLoop 1 (bigint_rem base m) exp m))"

subsection \<open>randBigInt and the random source\<close>

text \<open>
  The random source is the sequence of the values
  \<open>Math.floor(Math.random() * Number.MAX_SAFE_INTEGER)\<close> that the worker draws, in order.
  Each is a natural number below \<open>MAX_SAFE_INTEGER\<close>; the theorems below hold for
  every sequence of naturals.
\<close>

definition MAX_SAFE_INTEGER :: nat where
  "MAX_SAFE_INTEGER = 9007199254740991"

type_synonym rng = "nat \<Rightarrow> nat"

definition nextRandom :: "rng \<Rightarrow> nat \<times> rng" where
  "nextRandom rs = (rs 0, \<lambda>i. rs (Suc i))"

definition randBigInt :: "int \<Rightarrow> int \<Rightarrow> rng \<Rightarrow> (int \<times> rng) outcome" where
  "randBigInt lo hi rs =
     (let range = hi - lo;
          (randNum, rs') = nextRandom rs
      in if range = 0 then Throws RangeError
         else Returns (bigint_rem (int randNum) range + lo, rs'))"

subsection \<open>isPrimeMillerRabin\<close>

text \<open>
  The loop \<open>while (d % 2n === 0n) { d /= 2n; r += 1n; }\<close>. It leaves \<open>d = 0\<close> unchanged and
  so never ends there, which the model records as \<open>NoReturn\<close>.
\<close>

function splitPowerOfTwo :: "int \<Rightarrow> int \<Rightarrow> (int \<times> int) outcome" where
  "splitPowerOfTwo d r =
     (if bigint_rem d 2 = 0
      then (if d = 0 then NoReturn else splitPowerOfTwo (bigint_div d 2) (r + 1))
      else Returns (d, r))"
  by pat_completeness auto
termination
  by (relation "measure (\<lambda>(d, r). nat \<bar>d\<bar>)")
     (auto simp: bigint_div_def sgn_if abs_if)

declare splitPowerOfTwo.simps [simp del]

text \<open>
  The loop \<open>for (let j = 0n; j < r - 1n; j++)\<close> of one round; its value is the flag
  \<open>continueLoop\<close> at its end.
\<close>

function squareLoop :: "int \<Rightarrow> int \<Rightarrow> int \<Rightarrow> int \<Rightarrow> bool" where
  "squareLoop j r x n =
     (if j < r - 1
      then (let x' = bigint_rem (x * x) n
            in if x' = n - 1 then True else squareLoop (j + 1) r x' n)
      else False)"
  by pat_completeness auto
termination
  by (relation "measure (\<lambda>(j, r, x, n). nat (r - 1 - j))") auto

declare squareLoop.simps [simp del]

text \<open>
  The loop \<open>for (let i = 0; i < k; i++)\<close> over the rounds, by recursion on the number of
  rounds still to run. The rounds count \<open>k\<close> is a natural number.
\<close>

fun roundsLoop :: "nat \<Rightarrow> int \<Rightarrow> int \<Rightarrow> int \<Rightarrow> rng \<Rightarrow> (bool \<times> rng) outcome" where
  "roundsLoop 0 n d r rs = Returns (True, rs)"
| "roundsLoop (Suc k) n d r rs =
     andThen (randBigInt 2 (n - 2) rs) (\<lambda>(a, rs').
     andThen (modPow a d n) (\<lambda>x.
       if x = 1 \<or> x = n - 1 then roundsLoop k n d r rs'
       else if squareLoop 0 r x n then roundsLoop k n d r rs'
       else Returns (False, rs')))"

definition isPrimeMillerRabin :: "int \<Rightarrow> nat \<Rightarrow> rng \<Rightarrow> (bool \<times> rng) outcome" where
  "isPrimeMillerRabin n k rs =
     (if n < 2 then Returns (False, rs)
      else if n = 2 \<or> n = 3 then Returns (True, rs)
      else if bigint_rem n 2 = 0 then Returns (False, rs)
      else andThen (splitPowerOfTwo (n - 1) 0) (\<lambda>(d, r). roundsLoop k n d r rs))"

subsection \<open>pollardRho\<close>

text \<open>
  Neither the \<open>while (g === 1n)\<close> loop nor the retry \<open>return pollardRho(n)\<close> is bounded, so
  both draw on \<open>fuel\<close>: one unit for each iteration of the loop. The model puts no bound on
  the depth of the recursion. An engine whose call stack is bounded ends an endless chain
  of retries with a RangeError instead; in either reading such a call returns no factor.
\<close>

fun pollardRho :: "nat \<Rightarrow> int \<Rightarrow> rng \<Rightarrow> (int \<times> rng) outcome"
  and rhoLoop :: "nat \<Rightarrow> int \<Rightarrow> int \<Rightarrow> int \<Rightarrow> int \<Rightarrow> rng \<Rightarrow> (int \<times> rng) outcome" where
  "pollardRho fuel n rs =
     (if bigint_rem n 2 = 0 then Returns (2, rs)
      else (case randBigInt 2 (n - 1) rs of
              Returns (x, rs1) \<Rightarrow>
                (case randBigInt 1 (n - 1) rs1 of
                   Returns (c, rs2) \<Rightarrow> rhoLoop fuel n x x c rs2
                 | Throws e \<Rightarrow> Throws e
                 | NoReturn \<Rightarrow> NoReturn)
            | Throws e \<Rightarrow> Throws e
            | NoReturn \<Rightarrow> NoReturn))"
| "rhoLoop 0 n x y c rs = NoReturn"
| "rhoLoop (Suc fuel) n x y c rs =
     (let x = bigint_rem (x * x + c) n;
          y = bigint_rem (y * y + c) n;
          y = bigint_rem (y * y + c) n;
          diff = (if x > y then x - y else y - x);
          g = gcd_js diff n
      in if g = n then pollardRho fuel n rs
         else if g = 1 then rhoLoop fuel n x y c rs
         else Returns (g, rs))"

subsection \<open>factorize\<close>

text \<open>
  The object \<open>factors\<close> is the list of its properties in creation order, each a key with its
  count; the key is the BigInt whose decimal string names the property.
  \<open>factors[p] = (factors[p] || 0) + 1\<close> adds one to an existing property in place and creates a
  missing one at the end.
\<close>

type_synonym factors = "(int \<times> nat) list"

fun increment :: "factors \<Rightarrow> int \<Rightarrow> factors" where
  "increment [] p = [(p, 1)]"
| "increment ((q, c) # fs) p = (if q = p then (q, c + 1) # fs else (q, c) # increment fs p)"

text \<open>
  The loop \<open>while (n % p === 0n) { factors[p] = ...; n /= p; }\<close>. It throws for \<open>p = 0\<close>, and
  it never ends when dividing leaves the absolute value of \<open>n\<close> unchanged, that is for
  \<open>n = 0\<close> and for \<open>p = 1\<close> or \<open>p = -1\<close>.
\<close>

function divideOut :: "int \<Rightarrow> int \<Rightarrow> factors \<Rightarrow> (int \<times> factors) outcome" where
  "divideOut p n fs =
     (if p = 0 then Throws RangeError
      else if bigint_rem n p = 0
      then (if n = 0 \<or> \<bar>p\<bar> = 1 then NoReturn
            else divideOut p (bigint_div n p) (increment fs p))
      else Returns (n, fs))"
  by pat_completeness auto
termination
proof (relation "measure (\<lambda>(p, n, fs). nat \<bar>n\<bar>)")
  show "wf (measure (\<lambda>(p, n, fs). nat \<bar>n\<bar>))" by simp
next
  fix p n :: int and fs :: factors
  assume "p \<noteq> 0" and "\<not> (n = 0 \<or> \<bar>p\<bar> = 1)"
  then have p: "2 \<le> \<bar>p\<bar>" and n: "0 < \<bar>n\<bar>" by auto
  have "0 \<le> \<bar>n\<bar> div \<bar>p\<bar>"
    using p by (simp add: pos_imp_zdiv_nonneg_iff)
  then have "\<bar>\<bar>n\<bar> div \<bar>p\<bar>\<bar> = \<bar>n\<bar> div \<bar>p\<bar>"
    by (rule abs_of_nonneg)
  moreover have "\<bar>sgn n\<bar> = 1" and "\<bar>sgn p\<bar> = 1"
    using \<open>p \<noteq> 0\<close> n by (simp_all add: abs_sgn_eq)
  ultimately have "\<bar>bigint_div n p\<bar> = \<bar>n\<bar> div \<bar>p\<bar>"
    unfolding bigint_div_def abs_mult by simp
  also have "\<dots> < \<bar>n\<bar>"
    using p n by (intro int_div_less_self) auto
  finally show "((p, bigint_div n p, increment fs p), (p, n, fs))
      \<in> measure (\<lambda>(p, n, fs). nat \<bar>n\<bar>)"
    by simp
qed

declare divideOut.simps [simp del]

text \<open>The loop \<open>for (const p of smallPrimes)\<close> with its \<open>break\<close>.\<close>

fun trialDivision :: "int list \<Rightarrow> int \<Rightarrow> factors \<Rightarrow> (int \<times> factors) outcome" where
  "trialDivision [] n fs = Returns (n, fs)"
| "trialDivision (p # ps) n fs =
     (if p * p > n then Returns (n, fs)
      else (case divideOut p n fs of
              Returns (n', fs') \<Rightarrow> trialDivision ps n' fs'
            | Throws e \<Rightarrow> Throws e
            | NoReturn \<Rightarrow> NoReturn))"

text \<open>
  One pass through the body of \<open>while (stack.length > 0)\<close>, from \<open>stack.pop()\<close> on. The
  stack is a list whose head is the top. \<open>target / factor\<close> throws when \<open>factor\<close> is zero.
\<close>

definition loopBody ::
  "nat \<Rightarrow> int \<Rightarrow> int list \<Rightarrow> factors \<Rightarrow> rng \<Rightarrow> (int list \<times> factors \<times> rng) outcome" where
  "loopBody fuel target stack fs rs =
     (if target = 1 then Returns (stack, fs, rs)
      else andThen (isPrimeMillerRabin target 5 rs) (\<lambda>(certified, rs1).
        if certified then Returns (stack, increment fs target, rs1)
        else andThen (pollardRho fuel target rs1) (\<lambda>(factor, rs2).
          if factor = 0 then Throws RangeError
          else Returns (bigint_div target factor # factor # stack, fs, rs2))))"

fun stackLoop :: "nat \<Rightarrow> int list \<Rightarrow> factors \<Rightarrow> rng \<Rightarrow> (factors \<times> rng) outcome" where
  "stackLoop fuel [] fs rs = Returns (fs, rs)"
| "stackLoop 0 (target # stack) fs rs = NoReturn"
| "stackLoop (Suc fuel) (target # stack) fs rs =
     (case loopBody fuel target stack fs rs of
        Returns (stack', fs', rs') \<Rightarrow> stackLoop fuel stack' fs' rs'
      | Throws e \<Rightarrow> Throws e
      | NoReturn \<Rightarrow> NoReturn)"

definition factorize :: "nat \<Rightarrow> int \<Rightarrow> rng \<Rightarrow> (factors \<times> rng) outcome" where
  "factorize fuel n rs =
     andThen (trialDivision smallPrimes n []) (\<lambda>(n', fs).
       if n' = 1 then Returns (fs, rs) else stackLoop fuel [n'] fs rs)"

subsection \<open>The message handler\<close>

text \<open>
  \<open>BigInt(inputStr)\<close> applies the built-in conversion StringToBigInt of ECMAScript, which is
  not code of this repository; it is modelled here after the language standard. The
  string is trimmed of white space and line terminators; an empty rest is \<open>0n\<close>; a rest
  starting with \<open>0x\<close>, \<open>0o\<close> or \<open>0b\<close> (in either case) is a literal in that radix; any other
  rest is a decimal literal with an optional sign. Everything else is a SyntaxError: a
  sign alone, a digit foreign to the radix, a decimal point, an exponent, a separator, a
  suffix \<open>n\<close>. A string is a list of 8-bit characters here, so of the white space beyond
  ASCII only the no-break space appears.
\<close>

definition isStrWhiteSpaceChar :: "char \<Rightarrow> bool" where
  "isStrWhiteSpaceChar c \<longleftrightarrow> (of_char c :: nat) \<in> {9, 10, 11, 12, 13, 32, 160}"

definition trimString :: "string \<Rightarrow> string" where
  "trimString s = rev (dropWhile isStrWhiteSpaceChar (rev (dropWhile isStrWhiteSpaceChar s)))"

definition digitValue :: "char \<Rightarrow> nat option" where
  "digitValue c =
     (let k = (of_char c :: nat)
      in if 48 \<le> k \<and> k \<le> 57 then Some (k - 48)
         else if 97 \<le> k \<and> k \<le> 102 then Some (k - 87)
         else if 65 \<le> k \<and> k \<le> 70 then Some (k - 55)
         else None)"

fun parseDigits :: "nat \<Rightarrow> string \<Rightarrow> nat \<Rightarrow> nat option" where
  "parseDigits radix [] acc = Some acc"
| "parseDigits radix (c # cs) acc =
     (case digitValue c of
        None \<Rightarrow> None
      | Some v \<Rightarrow> if v < radix then parseDigits radix cs (acc * radix + v) else None)"

definition parseLiteral :: "nat \<Rightarrow> string \<Rightarrow> int option" where
  "parseLiteral radix s = (if s = [] then None else map_option int (parseDigits radix s 0))"

definition StringToBigInt :: "string \<Rightarrow> int option" where
  "StringToBigInt s =
     (case trimString s of
        [] \<Rightarrow> Some 0
      | c # cs \<Rightarrow>
          if c = CHR ''0'' \<and> cs \<noteq> [] \<and> hd cs \<in> {CHR ''x'', CHR ''X''} then parseLiteral 16 (tl cs)
          else if c = CHR ''0'' \<and> cs \<noteq> [] \<and> hd cs \<in> {CHR ''o'', CHR ''O''} then parseLiteral 8 (tl cs)
          else if c = CHR ''0'' \<and> cs \<noteq> [] \<and> hd cs \<in> {CHR ''b'', CHR ''B''} then parseLiteral 2 (tl cs)
          else if c = CHR ''+'' then parseLiteral 10 cs
          else if c = CHR ''-'' then map_option uminus (parseLiteral 10 cs)
          else parseLiteral 10 (c # cs))"

definition BigInt :: "string \<Rightarrow> int outcome" where
  "BigInt s = (case StringToBigInt s of None \<Rightarrow> Throws SyntaxError | Some n \<Rightarrow> Returns n)"

text \<open>
  The message posted to the caller: \<open>{status: 'success', original, factors, time}\<close> without
  the elapsed time, or \<open>{status: 'error', message}\<close>, whose text is fixed by the error caught.
  The handler posts nothing when \<open>factorize\<close> does not return.
\<close>

datatype message = Success string factors | Failure js_error

definition onmessage :: "nat \<Rightarrow> string \<Rightarrow> rng \<Rightarrow> message option" where
  "onmessage fuel inputStr rs =
     (case BigInt inputStr of
        Throws err \<Rightarrow> Some (Failure err)
      | NoReturn \<Rightarrow> None
      | Returns n \<Rightarrow>
          (case factorize fuel n rs of
             Returns (result, rs') \<Rightarrow> Some (Success inputStr result)
           | Throws err \<Rightarrow> Some (Failure err)
           | NoReturn \<Rightarrow> None))"

subsection \<open>The order in which an object lists its properties\<close>

text \<open>
  \<open>factorize\<close> returns the object \<open>factors\<close> as it is. Iterating an ordinary object (and
  cloning it for \<open>postMessage\<close>) lists first the keys that are array indices, the canonical
  decimal strings of the integers from 0 to \<open>2^32 - 2\<close>, in ascending numeric order, and
  then every other string key in the order of its creation.
\<close>

definition isArrayIndex :: "int \<Rightarrow> bool" where
  "isArrayIndex k \<longleftrightarrow> 0 \<le> k \<and> k < 2 ^ 32 - 1"

definition ownKeys :: "factors \<Rightarrow> int list" where
  "ownKeys fs =
     sort (filter isArrayIndex (map fst fs)) @ filter (\<lambda>k. \<not> isArrayIndex k) (map fst fs)"

subsection \<open>Notions used to state the properties\<close>

text \<open>Primality of a BigInt: greater than one, with no divisor strictly between one and itself.\<close>

definition is_prime :: "int \<Rightarrow> bool" where
  "is_prime p \<longleftrightarrow> 1 < p \<and> (\<forall>d\<in>{2..<p}. \<not> d dvd p)"

text \<open>What the sieve has established once every \<open>p\<close> below \<open>P\<close> has been handled.\<close>

definition unmarked :: "nat \<Rightarrow> nat \<Rightarrow> bool" where
  "unmarked P k \<longleftrightarrow> 2 \<le> k \<and> (\<forall>d. 2 \<le> d \<and> d < P \<and> d * d \<le> k \<longrightarrow> \<not> d dvd k)"

definition sieved :: "nat \<Rightarrow> nat \<Rightarrow> 8 word list \<Rightarrow> bool" where
  "sieved limit P isPrime \<longleftrightarrow>
     length isPrime = limit + 1 \<and> (\<forall>k\<le>limit. isPrime ! k \<noteq> 0 \<longleftrightarrow> unmarked P k)"

text \<open>The product of \<open>key ^ count\<close> over the properties of a \<open>factors\<close> object.\<close>

definition factorProduct :: "factors \<Rightarrow> int" where
  "factorProduct fs = prod_list (map (\<lambda>(p, c). p ^ c) fs)"

text \<open>
  The states in which the loop \<open>while (stack.length > 0)\<close> of \<open>factorize(n)\<close> can stand at its
  head: the state in which it is entered, and every state one pass of its body leads to.
\<close>

inductive loopState :: "int \<Rightarrow> int list \<times> factors \<times> rng \<Rightarrow> bool" for n :: int where
  enter: "trialDivision smallPrimes n [] = Returns (m, fs) \<Longrightarrow> m \<noteq> 1 \<Longrightarrow>
    loopState n ([m], fs, rs)"
| pass: "loopState n (target # stack, fs, rs) \<Longrightarrow>
    loopBody fuel target stack fs rs = Returns s' \<Longrightarrow> loopState n s'"

text \<open>
  The strings that denote a non-negative decimal integer: one decimal digit or more. The
  number such a string denotes is \<open>decimalValue\<close>.
\<close>

definition isDecimalDigit :: "char \<Rightarrow> bool" where
  "isDecimalDigit c \<longleftrightarrow> c \<in> set ''0123456789''"

definition isDecimalString :: "string \<Rightarrow> bool" where
  "isDecimalString s \<longleftrightarrow> s \<noteq> [] \<and> list_all isDecimalDigit s"

definition decimalValue :: "string \<Rightarrow> nat" where
  "decimalValue s = foldl (\<lambda>acc c. acc * 10 + (of_char c - 48)) 0 s"

section \<open>Arithmetic of the numeric primitives\<close>

lemma bigint_rem_nonneg [simp]: "0 \<le> a \<Longrightarrow> 0 < b \<Longrightarrow> bigint_rem a b = a mod b"
  by (cases "a = 0") (simp_all add: bigint_rem_def)

lemma bigint_div_nonneg [simp]: "0 \<le> a \<Longrightarrow> 0 < b \<Longrightarrow> bigint_div a b = a div b"
  by (cases "a = 0") (simp_all add: bigint_div_def)

lemma gcd_js_eq_gcd: "0 \<le> a \<Longrightarrow> 0 \<le> b \<Longrightarrow> gcd_js a b = gcd a b"
proof (induction a b rule: gcd_js.induct)
  case (1 a b)
  show ?case
  proof (cases "b > 0")
    case True
    then have "gcd_js a b = gcd_js b (a mod b)"
      using "1.prems" by (subst gcd_js.simps) simp
    also have "\<dots> = gcd b (a mod b)"
      using "1.IH" [OF True] True "1.prems" by simp
    also have "\<dots> = gcd a b"
      by (metis gcd_red_int)
    finally show ?thesis .
  next
    case False
    with "1.prems" have "b = 0" by simp
    then show ?thesis using "1.prems" by (subst gcd_js.simps) simp
  qed
qed

lemma modPowLoop_step:
  assumes "0 < e" "0 < m" "0 \<le> b" "0 \<le> res"
  shows "modPowLoop res b e m =
    modPowLoop (if e mod 2 = 1 then res * b mod m else res) (b * b mod m) (e div 2) m"
proof -
  have "bigint_rem (res * b) m = res * b mod m" "bigint_rem (b * b) m = b * b mod m"
    "bigint_rem e 2 = e mod 2" "bigint_div e 2 = e div 2"
    using assms by simp_all
  then show ?thesis
    using assms by (subst modPowLoop.simps) simp
qed

lemma modPowLoop_stop: "\<not> 0 < e \<Longrightarrow> modPowLoop res b e m = res"
  by (subst modPowLoop.simps) simp

lemma modPowLoop_correct:
  "0 \<le> e \<Longrightarrow> 0 < m \<Longrightarrow> 0 \<le> b \<Longrightarrow> 0 \<le> res \<Longrightarrow>
   modPowLoop res b e m mod m = (res * b ^ nat e) mod m"
proof (induction "nat e" arbitrary: e res b rule: less_induct)
  case less
  show ?case
  proof (cases "e > 0")
    case False
    with less.prems have "e = 0" by simp
    then show ?thesis by (simp add: modPowLoop_stop)
  next
    case True
    define res' where "res' = (if e mod 2 = 1 then (res * b) mod m else res)"
    have unfold: "modPowLoop res b e m = modPowLoop res' ((b * b) mod m) (e div 2) m"
      unfolding res'_def using True less.prems by (intro modPowLoop_step) simp_all
    have res': "0 \<le> res'" using less.prems by (simp add: res'_def)
    have "nat (e div 2) < nat e" using True by simp
    then have IH: "modPowLoop res' ((b * b) mod m) (e div 2) m mod m
        = (res' * ((b * b) mod m) ^ nat (e div 2)) mod m"
      using True less.prems res' by (intro less.hyps) simp_all
    have "int (2 * nat (e div 2) + nat (e mod 2)) = e"
      using True by (simp add: pos_imp_zdiv_nonneg_iff)
    then have e: "nat e = 2 * nat (e div 2) + nat (e mod 2)"
      by (metis nat_int)
    have "(res' * ((b * b) mod m) ^ nat (e div 2)) mod m
        = (res' * (b * b) ^ nat (e div 2)) mod m"
      by (metis mod_mult_right_eq power_mod)
    also have "\<dots> = (res * b ^ nat (e mod 2) * (b * b) ^ nat (e div 2)) mod m"
    proof (cases "e mod 2 = 1")
      case True
      then show ?thesis
        by (simp add: res'_def mod_mult_left_eq)
    next
      case False
      then have "e mod 2 = 0" by presburger
      then show ?thesis by (simp add: res'_def)
    qed
    also have "res * b ^ nat (e mod 2) * (b * b) ^ nat (e div 2) = res * b ^ nat e"
    proof -
      have "b ^ nat e = b ^ nat (e mod 2) * (b * b) ^ nat (e div 2)"
        by (subst e) (simp add: power_add power_mult power2_eq_square)
      then show ?thesis by simp
    qed
    finally show ?thesis using unfold IH by simp
  qed
qed

lemma modPowLoop_range:
  "0 < m \<Longrightarrow> 0 \<le> b \<Longrightarrow> 0 \<le> res \<Longrightarrow> res < m \<Longrightarrow>
   0 \<le> modPowLoop res b e m \<and> modPowLoop res b e m < m"
proof (induction "nat e" arbitrary: e res b rule: less_induct)
  case less
  show ?case
  proof (cases "e > 0")
    case False
    then show ?thesis using less.prems by (simp add: modPowLoop_stop)
  next
    case True
    define res' where "res' = (if e mod 2 = 1 then (res * b) mod m else res)"
    have unfold: "modPowLoop res b e m = modPowLoop res' ((b * b) mod m) (e div 2) m"
      unfolding res'_def using True less.prems by (intro modPowLoop_step) simp_all
    have res': "0 \<le> res'" "res' < m" using less.prems by (simp_all add: res'_def)
    have "nat (e div 2) < nat e" using True by simp
    then show ?thesis
      unfolding unfold using True less.prems res' by (intro less.hyps) simp_all
  qed
qed

lemma modPow_correct:
  assumes "0 \<le> b" "0 \<le> e" "2 \<le> m"
  shows "modPow b e m = Returns (b ^ nat e mod m)"
proof -
  have m: "0 < m" "1 < m" using assms by simp_all
  have r: "0 \<le> modPowLoop 1 (b mod m) e m \<and> modPowLoop 1 (b mod m) e m < m"
    using m assms by (intro modPowLoop_range) simp_all
  have "modPowLoop 1 (b mod m) e m mod m = (1 * (b mod m) ^ nat e) mod m"
    using m assms by (intro modPowLoop_correct) simp_all
  then have "modPowLoop 1 (b mod m) e m = b ^ nat e mod m"
    using r by (simp add: power_mod)
  then show ?thesis using m assms by (simp add: modPow_def)
qed

lemma randBigInt_value:
  assumes "lo < hi"
  shows "randBigInt lo hi rs = Returns (int (rs 0) mod (hi - lo) + lo, \<lambda>i. rs (Suc i))"
  using assms by (simp add: randBigInt_def nextRandom_def Let_def)

lemma randBigInt_in_range:
  assumes "lo < hi"
  shows "\<exists>v rs'. randBigInt lo hi rs = Returns (v, rs') \<and> lo \<le> v \<and> v < hi"
proof -
  have "0 < hi - lo" using assms by simp
  then have "0 \<le> int (rs 0) mod (hi - lo)" "int (rs 0) mod (hi - lo) < hi - lo"
    by (rule pos_mod_sign, rule pos_mod_bound)
  then have "lo \<le> int (rs 0) mod (hi - lo) + lo" "int (rs 0) mod (hi - lo) + lo < hi"
    by linarith+
  then show ?thesis
    unfolding randBigInt_value [OF assms] by blast
qed

text \<open>
  C4. \<open>modPow(base, exponent, modulus)\<close> is \<open>base ^ exponent mod modulus\<close> for \<open>modulus \<ge> 2\<close>. With
  exponent 0 and modulus 1 the loop never runs and the initial accumulator 1 is returned
  unreduced, where \<open>base ^ 0 mod 1\<close> is 0.
\<close>

theorem modPow_exponent_zero_modulus_one:
  "modPow 5 0 1 = Returns 1 \<and> (5::int) ^ nat 0 mod 1 = 0"
  by (simp add: modPow_def modPowLoop.simps)

text \<open>
  C7. For all BigInt values \<open>min < max\<close> and every value of the random source,
  \<open>randBigInt(min, max)\<close> returns a value \<open>v\<close> with \<open>min \<le> v < max\<close>; the bounds are unbounded
  integers, so the width \<open>max - min\<close> may exceed any machine word.
\<close>

theorem randBigInt_within_interval:
  "lo < hi \<Longrightarrow> \<exists>v rs'. randBigInt lo hi rs = Returns (v, rs') \<and> lo \<le> v \<and> v < hi"
  by (rule randBigInt_in_range)

theorem randBigInt_within_interval_witness:
  "(- 5 :: int) < 2 ^ 70 \<and>
   (\<exists>v rs'. randBigInt (- 5) (2 ^ 70) (\<lambda>_. 9007199254740990) = Returns (v, rs')
      \<and> - 5 \<le> v \<and> v < 2 ^ 70)"
proof -
  have h: "(- 5 :: int) < 2 ^ 70" by simp
  from randBigInt_within_interval [OF h] h show ?thesis by blast
qed

section \<open>Primes and Fermat's little theorem\<close>

lemma is_primeD:
  assumes "is_prime p" "d dvd p" "0 < d"
  shows "d = 1 \<or> d = p"
proof (rule ccontr)
  assume "\<not> (d = 1 \<or> d = p)"
  moreover have "d \<le> p" using assms by (intro zdvd_imp_le) (simp_all add: is_prime_def)
  ultimately have "d \<in> {2..<p}" using assms by simp
  then show False using assms by (simp add: is_prime_def)
qed

lemma is_prime_coprime:
  assumes "is_prime p" "\<not> p dvd a"
  shows "coprime p a"
proof -
  have "gcd p a dvd p" by simp
  moreover have "0 < gcd p a" using assms by (simp add: is_prime_def)
  ultimately have "gcd p a = 1 \<or> gcd p a = p" using assms(1) by (intro is_primeD)
  moreover have "gcd p a \<noteq> p" using assms(2) by (metis gcd_dvd2)
  ultimately show ?thesis by (simp add: coprime_iff_gcd_eq_1)
qed

lemma is_prime_dvd_mult:
  assumes "is_prime p" "p dvd a * b"
  shows "p dvd a \<or> p dvd b"
proof (cases "p dvd a")
  case False
  then have "coprime p a" using assms(1) by (rule is_prime_coprime [rotated])
  then show ?thesis using assms(2) by (simp add: coprime_dvd_mult_right_iff)
qed simp

lemma is_prime_not_dvd_small:
  assumes "is_prime p" "0 < a" "a < p"
  shows "\<not> p dvd a"
  using assms zdvd_imp_le [of p a] by auto

lemma is_prime_dvd_binomial:
  assumes "is_prime p" "0 < k" "k < nat p"
  shows "p dvd int (nat p choose k)"
proof -
  have "k * (nat p choose k) = nat p * ((nat p - 1) choose (k - 1))"
    using assms(2) by (rule times_binomial_minus1_eq)
  then have "int (k * (nat p choose k)) = int (nat p * ((nat p - 1) choose (k - 1)))"
    by (rule arg_cong)
  moreover have "int (nat p) = p" using assms(1) by (simp add: is_prime_def)
  ultimately have "int k * int (nat p choose k) = p * int ((nat p - 1) choose (k - 1))"
    by (simp only: of_nat_mult)
  then have "p dvd int k * int (nat p choose k)" by simp
  moreover have "\<not> p dvd int k"
    using assms by (intro is_prime_not_dvd_small) simp_all
  ultimately show ?thesis using is_prime_dvd_mult [OF assms(1)] by blast
qed

lemma is_prime_add_one_power:
  assumes "is_prime p"
  shows "p dvd (a + 1) ^ nat p - (a ^ nat p + 1)"
proof -
  define n where "n = nat p - 2"
  have "1 < p" using assms by (simp add: is_prime_def)
  then have "2 \<le> nat p" by simp
  then have n: "nat p = Suc (Suc n)"
    unfolding n_def by arith
  define g where "g k = int (nat p choose k) * a ^ k" for k
  have "(a + 1) ^ nat p = (\<Sum>k\<le>Suc (Suc n). g k)"
    by (simp add: binomial_ring [of a 1] g_def n [symmetric])
  also have "\<dots> = g 0 + (\<Sum>k\<le>Suc n. g (Suc k))"
    by (rule sum.atMost_Suc_shift)
  also have "(\<Sum>k\<le>Suc n. g (Suc k)) = (\<Sum>k\<le>n. g (Suc k)) + g (Suc (Suc n))"
    by (rule sum.atMost_Suc)
  also have "g 0 = 1" by (simp add: g_def)
  also have "g (Suc (Suc n)) = a ^ nat p" by (simp add: g_def n [symmetric])
  finally have "(a + 1) ^ nat p - (a ^ nat p + 1) = (\<Sum>k\<le>n. g (Suc k))" by simp
  moreover have "p dvd (\<Sum>k\<le>n. g (Suc k))"
  proof (rule dvd_sum)
    fix k assume "k \<in> {..n}"
    then have "p dvd int (nat p choose Suc k)"
      using n by (intro is_prime_dvd_binomial assms) simp_all
    then show "p dvd g (Suc k)" by (simp add: g_def)
  qed
  ultimately show ?thesis by simp
qed

lemma is_prime_power_self:
  assumes "is_prime p" "0 \<le> a"
  shows "p dvd a ^ nat p - a"
  using assms(2)
proof (induction a rule: int_ge_induct)
  case base
  have "0 < nat p" using assms(1) by (simp add: is_prime_def)
  then show ?case by (simp add: power_0_left)
next
  case (step a)
  have "p dvd ((a + 1) ^ nat p - (a ^ nat p + 1)) + (a ^ nat p - a)"
    using is_prime_add_one_power [OF assms(1), of a] step.IH by (rule dvd_add)
  moreover have "((a + 1) ^ nat p - (a ^ nat p + 1)) + (a ^ nat p - a) = (a + 1) ^ nat p - (a + 1)"
    by simp
  ultimately show ?case by simp
qed

theorem fermat_little:
  assumes "is_prime p" "0 < a" "a < p"
  shows "a ^ nat (p - 1) mod p = 1"
proof -
  have p: "1 < p" using assms(1) by (simp add: is_prime_def)
  then have "nat p = Suc (nat (p - 1))" by simp
  then have "a ^ nat p - a = a * (a ^ nat (p - 1) - 1)"
    by (simp add: algebra_simps)
  then have "p dvd a * (a ^ nat (p - 1) - 1)"
    using is_prime_power_self [OF assms(1), of a] assms(2) by simp
  moreover have "\<not> p dvd a" using assms by (rule is_prime_not_dvd_small)
  ultimately have "p dvd a ^ nat (p - 1) - 1"
    using is_prime_dvd_mult [OF assms(1)] by blast
  then have "a ^ nat (p - 1) mod p = 1 mod p"
    by (simp add: mod_eq_dvd_iff)
  then show ?thesis using p by simp
qed

lemma is_prime_sqrt_one:
  assumes "is_prime p" "0 \<le> x" "x < p" "x * x mod p = 1"
  shows "x = 1 \<or> x = p - 1"
proof -
  have p: "1 < p" using assms(1) by (simp add: is_prime_def)
  have "x * x mod p = 1 mod p" using assms(4) p by simp
  then have "p dvd x * x - 1" by (simp add: mod_eq_dvd_iff)
  moreover have "x * x - 1 = (x - 1) * (x + 1)" by (simp add: algebra_simps)
  ultimately have "p dvd x - 1 \<or> p dvd x + 1"
    using is_prime_dvd_mult [OF assms(1)] by metis
  then show ?thesis
  proof
    assume d: "p dvd x - 1"
    have "\<not> 0 < x - 1"
      using is_prime_not_dvd_small [OF assms(1), of "x - 1"] d assms(3) by auto
    moreover have "x \<noteq> 0" using assms(4) p by auto
    ultimately show ?thesis using assms(2) by simp
  next
    assume d: "p dvd x + 1"
    have "p \<le> x + 1" using d assms(2) by (intro zdvd_imp_le) simp_all
    then show ?thesis using assms(3) by simp
  qed
qed

lemma is_prime_upto: "is_prime p \<longleftrightarrow> 1 < p \<and> (\<forall>d\<in>set [2..p - 1]. \<not> d dvd p)"
proof -
  have "set [2..p - 1] = {2..<p}" by auto
  then show ?thesis by (simp add: is_prime_def)
qed

lemma is_prime_13: "is_prime 13"
  by (simp add: is_prime_upto upto_rec1)

section \<open>The primality test accepts every prime\<close>

lemma squareLoop_step:
  assumes "j < r - 1" "0 \<le> x" "0 < n"
  shows "squareLoop j r x n = (x * x mod n = n - 1 \<or> squareLoop (j + 1) r (x * x mod n) n)"
proof -
  have "bigint_rem (x * x) n = x * x mod n" using assms by simp
  then show ?thesis using assms by (subst squareLoop.simps) (simp add: Let_def)
qed

lemma squareLoop_complete:
  assumes "is_prime n" "2 < n"
  shows "0 \<le> x \<Longrightarrow> x < n \<Longrightarrow> nat (r - 1 - j) = m \<Longrightarrow> 0 \<le> r - 1 - j \<Longrightarrow>
    x ^ (2 ^ Suc m) mod n = 1 \<Longrightarrow> x = 1 \<or> x = n - 1 \<or> squareLoop j r x n"
proof (induction m arbitrary: x j)
  case 0
  then have "x * x mod n = 1" by (simp add: power2_eq_square)
  then show ?case using is_prime_sqrt_one [OF assms(1), of x] 0 by blast
next
  case (Suc m)
  define x' where "x' = x * x mod n"
  have j: "j < r - 1" using Suc.prems by simp
  have x': "0 \<le> x'" "x' < n" using assms(2) by (simp_all add: x'_def)
  have "x' ^ (2 ^ Suc m) mod n = (x * x) ^ (2 ^ Suc m) mod n"
    by (simp add: x'_def power_mod)
  also have "(x * x) ^ (2 ^ Suc m) = x ^ (2 ^ Suc (Suc m))"
    by (simp add: power2_eq_square [symmetric] power_mult [symmetric])
  finally have "x' ^ (2 ^ Suc m) mod n = 1" using Suc.prems by simp
  moreover have "nat (r - 1 - (j + 1)) = m" "0 \<le> r - 1 - (j + 1)" using Suc.prems by simp_all
  ultimately have "x' = 1 \<or> x' = n - 1 \<or> squareLoop (j + 1) r x' n"
    using x' by (intro Suc.IH)
  moreover have "x' = 1 \<Longrightarrow> x = 1 \<or> x = n - 1"
    using is_prime_sqrt_one [OF assms(1), of x] Suc.prems by (simp add: x'_def)
  moreover have "squareLoop j r x n = (x' = n - 1 \<or> squareLoop (j + 1) r x' n)"
    unfolding x'_def using j Suc.prems assms(2) by (intro squareLoop_step) simp_all
  ultimately show ?case by blast
qed

lemma splitPowerOfTwo_returns:
  "0 < d \<Longrightarrow> \<exists>d' r'. splitPowerOfTwo d r = Returns (d', r') \<and> 0 < d' \<and> r \<le> r' \<and>
     d = d' * 2 ^ nat (r' - r) \<and> (even d \<longrightarrow> r < r')"
proof (induction "nat d" arbitrary: d r rule: less_induct)
  case less
  have rem: "bigint_rem d 2 = d mod 2" and quo: "bigint_div d 2 = d div 2"
    using less.prems by simp_all
  show ?case
  proof (cases "even d")
    case False
    then have "splitPowerOfTwo d r = Returns (d, r)"
      by (subst splitPowerOfTwo.simps) (simp add: rem odd_iff_mod_2_eq_one)
    then show ?thesis using less.prems False by simp
  next
    case True
    then have unfold: "splitPowerOfTwo d r = splitPowerOfTwo (d div 2) (r + 1)"
      using less.prems by (subst splitPowerOfTwo.simps) (simp add: rem quo)
    have half: "0 < d div 2" "nat (d div 2) < nat d" using True less.prems by auto
    obtain d' r' where *: "splitPowerOfTwo (d div 2) (r + 1) = Returns (d', r')" "0 < d'"
      "r + 1 \<le> r'" "d div 2 = d' * 2 ^ nat (r' - (r + 1))"
      using less.hyps [OF half(2) half(1), of "r + 1"] by blast
    have "nat (r' - r) = Suc (nat (r' - (r + 1)))" using *(3) by simp
    then have "d' * 2 ^ nat (r' - r) = 2 * (d div 2)" using *(4) by simp
    also have "\<dots> = d" using True by simp
    finally show ?thesis using * unfold by simp
  qed
qed

lemma roundsLoop_prime:
  assumes "is_prime n" "5 \<le> n" "0 < d" "1 \<le> r" "n - 1 = d * 2 ^ nat r"
  shows "\<exists>rs'. roundsLoop k n d r rs = Returns (True, rs')"
proof (induction k arbitrary: rs)
  case 0
  show ?case by simp
next
  case (Suc k)
  obtain a rs1 where a: "randBigInt 2 (n - 2) rs = Returns (a, rs1)" "2 \<le> a" "a < n - 2"
    using randBigInt_in_range [of 2 "n - 2" rs] assms(2) by auto
  define x where "x = a ^ nat d mod n"
  have mp: "modPow a d n = Returns x"
    unfolding x_def using a assms by (intro modPow_correct) simp_all
  have x: "0 \<le> x" "x < n" using assms(2) by (simp_all add: x_def)
  have "nat r = Suc (nat (r - 1))" using assms(4) by simp
  moreover have "nat (n - 1) = nat d * 2 ^ nat r"
    using assms(3,5) by (simp add: nat_mult_distrib nat_power_eq)
  ultimately have e: "nat (n - 1) = nat d * 2 ^ Suc (nat (r - 1))" by simp
  have "x ^ (2 ^ Suc (nat (r - 1))) mod n = (a ^ nat d) ^ (2 ^ Suc (nat (r - 1))) mod n"
    by (simp add: x_def power_mod)
  also have "\<dots> = a ^ nat (n - 1) mod n"
    by (simp only: e power_mult)
  also have "\<dots> = 1"
    using a assms(1) by (intro fermat_little) simp_all
  finally have "x = 1 \<or> x = n - 1 \<or> squareLoop 0 r x n"
    using x assms by (intro squareLoop_complete [where m = "nat (r - 1)"]) simp_all
  then have "roundsLoop (Suc k) n d r rs = roundsLoop k n d r rs1"
    by (auto simp: a mp)
  then show ?case using Suc.IH [of rs1] by simp
qed

lemma isPrimeMillerRabin_prime:
  assumes "is_prime n"
  shows "\<exists>rs'. isPrimeMillerRabin n k rs = Returns (True, rs')"
proof (cases "n = 2 \<or> n = 3")
  case True
  then show ?thesis by (auto simp: isPrimeMillerRabin_def)
next
  case False
  have n: "1 < n" using assms by (simp add: is_prime_def)
  have odd: "odd n"
  proof
    assume "even n"
    then have "2 \<in> {2..<n} \<and> 2 dvd n" using n False by simp
    then show False using assms unfolding is_prime_def by blast
  qed
  then have "n \<noteq> 4" by auto
  with n False have n5: "5 \<le> n" by simp
  have "0 < n - 1" using n by simp
  then obtain d r where dr: "splitPowerOfTwo (n - 1) 0 = Returns (d, r)" "0 < d" "0 \<le> r"
    "n - 1 = d * 2 ^ nat (r - 0)" "even (n - 1) \<longrightarrow> 0 < r"
    using splitPowerOfTwo_returns [of "n - 1" 0] by blast
  have "bigint_rem n 2 = 1" using odd n by (simp add: odd_iff_mod_2_eq_one)
  then have "isPrimeMillerRabin n k rs = roundsLoop k n d r rs"
    using n False dr(1) by (simp add: isPrimeMillerRabin_def)
  moreover have "1 \<le> r" using dr(5) odd by simp
  ultimately show ?thesis
    using roundsLoop_prime [OF assms n5 dr(2), of r k rs] dr(4) by simp
qed

text \<open>
  C5. The primality test has no false negatives: for every prime \<open>n\<close>, every number of
  rounds \<open>k\<close> and every sequence of random values, \<open>isPrimeMillerRabin(n, k)\<close> returns true.
\<close>

theorem isPrimeMillerRabin_no_false_negative:
  "is_prime n \<Longrightarrow> \<exists>rs'. isPrimeMillerRabin n k rs = Returns (True, rs')"
  by (rule isPrimeMillerRabin_prime)

theorem isPrimeMillerRabin_no_false_negative_witness:
  "is_prime 13 \<and> (\<exists>rs'. isPrimeMillerRabin 13 5 (\<lambda>i. 7 * i + 3) = Returns (True, rs'))"
  using isPrimeMillerRabin_no_false_negative [OF is_prime_13] is_prime_13 by blast

section \<open>The factor finder returns nontrivial factors only\<close>

lemma pollardRho_even: "2 \<le> n \<Longrightarrow> even n \<Longrightarrow> pollardRho fuel n rs = Returns (2, rs)"
  by simp

lemma pollardRho_odd:
  assumes "2 \<le> n" "odd n" "pollardRho fuel n rs = Returns (g, rs')"
  shows "\<exists>x c rs2. rhoLoop fuel n x x c rs2 = Returns (g, rs')"
proof -
  have "bigint_rem n 2 \<noteq> 0" using assms(1,2) by (simp add: odd_iff_mod_2_eq_one)
  then show ?thesis
    using assms(3) by (simp split: outcome.splits prod.splits) blast
qed

lemma rhoLoop_step:
  "rhoLoop (Suc fuel) n x y c rs =
    (let x1 = bigint_rem (x * x + c) n;
         y1 = bigint_rem (y * y + c) n;
         y2 = bigint_rem (y1 * y1 + c) n;
         h = gcd_js (if x1 > y2 then x1 - y2 else y2 - x1) n
     in if h = n then pollardRho fuel n rs
        else if h = 1 then rhoLoop fuel n x1 y2 c rs else Returns (h, rs))"
  by (simp add: Let_def)

lemma rhoLoop_result:
  assumes n: "2 \<le> n" "odd n"
  shows "rhoLoop fuel n x y c rs = Returns (g, rs') \<Longrightarrow> g dvd n \<and> 1 < g \<and> g < n"
proof (induction fuel arbitrary: x y c rs)
  case 0
  then show ?case by simp
next
  case (Suc fuel)
  define x1 where "x1 = bigint_rem (x * x + c) n"
  define y2 where "y2 = bigint_rem (bigint_rem (y * y + c) n * bigint_rem (y * y + c) n + c) n"
  define diff where "diff = (if x1 > y2 then x1 - y2 else y2 - x1)"
  define h where "h = gcd_js diff n"
  have "0 \<le> diff" by (simp add: diff_def)
  then have h: "h = gcd diff n" unfolding h_def using n by (intro gcd_js_eq_gcd) simp_all
  then have hn: "h dvd n" "0 < h" using n by simp_all
  then have "h \<le> n" using n by (intro zdvd_imp_le) simp_all
  have step: "rhoLoop (Suc fuel) n x y c rs =
      (if h = n then pollardRho fuel n rs
       else if h = 1 then rhoLoop fuel n x1 y2 c rs else Returns (h, rs))"
    unfolding x1_def y2_def diff_def h_def by (simp only: rhoLoop_step Let_def)
  show ?case
  proof (cases "h = n")
    case True
    then have "pollardRho fuel n rs = Returns (g, rs')" using Suc.prems step by simp
    then obtain x' c' rs2 where "rhoLoop fuel n x' x' c' rs2 = Returns (g, rs')"
      using pollardRho_odd [OF n] by blast
    then show ?thesis by (rule Suc.IH)
  next
    case False
    show ?thesis
    proof (cases "h = 1")
      case True
      then have "rhoLoop fuel n x1 y2 c rs = Returns (g, rs')"
        using Suc.prems step False by simp
      then show ?thesis by (rule Suc.IH)
    next
      case False
      then have "g = h" using Suc.prems step \<open>h \<noteq> n\<close> by simp
      then show ?thesis using hn \<open>h \<le> n\<close> \<open>h \<noteq> n\<close> False by simp
    qed
  qed
qed

lemma pollardRho_result:
  assumes "2 \<le> n" "pollardRho fuel n rs = Returns (g, rs')"
  shows "(even n \<longrightarrow> g = 2) \<and> (odd n \<longrightarrow> g dvd n \<and> 1 < g \<and> g < n)"
proof (cases "even n")
  case True
  then show ?thesis using assms by simp
next
  case False
  then obtain x c rs2 where "rhoLoop fuel n x x c rs2 = Returns (g, rs')"
    using pollardRho_odd [OF assms(1) _ assms(2)] by blast
  then show ?thesis using rhoLoop_result [OF assms(1) False] False by blast
qed

text \<open>
  C6. Whenever \<open>pollardRho(n)\<close> returns a value \<open>g\<close> for \<open>n \<ge> 2\<close>: if \<open>n\<close> is even then \<open>g = 2\<close>, and
  if \<open>n\<close> is odd then \<open>g\<close> divides \<open>n\<close> and \<open>1 < g < n\<close>, whatever the random source produces.
\<close>

theorem pollardRho_returns_nontrivial_factor:
  "2 \<le> n \<Longrightarrow> pollardRho fuel n rs = Returns (g, rs') \<Longrightarrow>
   (even n \<longrightarrow> g = 2) \<and> (odd n \<longrightarrow> g dvd n \<and> 1 < g \<and> g < n)"
  by (rule pollardRho_result)

theorem pollardRho_returns_nontrivial_factor_witness:
  "pollardRho 1 15 (\<lambda>_. 0) = Returns (3, \<lambda>_. 0) \<and> (3::int) dvd 15 \<and> (1::int) < 3 \<and> (3::int) < 15"
proof -
  have run: "pollardRho 1 15 (\<lambda>_. 0) = Returns (3, \<lambda>_. 0)"
    by (simp add: randBigInt_def nextRandom_def del: rhoLoop.simps) (simp add: gcd_js.simps)
  have "(2::int) \<le> 15" by simp
  from pollardRho_returns_nontrivial_factor [OF this run] run show ?thesis by simp
qed

section \<open>The sieve yields exactly the primes up to its limit\<close>

lemma markMultiples_length [simp]: "length (markMultiples limit p i isPrime) = length isPrime"
proof (induction limit p i isPrime rule: markMultiples.induct)
  case (1 limit p i isPrime)
  show ?case
  proof (cases "i \<le> limit \<and> 0 < p")
    case True
    then show ?thesis using 1 by (subst markMultiples.simps) simp
  next
    case False
    then show ?thesis by (subst markMultiples.simps) auto
  qed
qed

lemma markMultiples_nth:
  "0 < p \<Longrightarrow> length isPrime = limit + 1 \<Longrightarrow> k \<le> limit \<Longrightarrow>
   markMultiples limit p i isPrime ! k = (if i \<le> k \<and> p dvd (k - i) then 0 else isPrime ! k)"
proof (induction limit p i isPrime rule: markMultiples.induct)
  case (1 limit p i isPrime)
  show ?case
  proof (cases "i \<le> limit")
    case False
    then have "markMultiples limit p i isPrime = isPrime"
      by (subst markMultiples.simps) simp
    then show ?thesis using False "1.prems" by simp
  next
    case True
    then have unfold: "markMultiples limit p i isPrime
        = markMultiples limit p (i + p) (isPrime[i := 0])"
      using "1.prems" by (subst markMultiples.simps) simp
    have IH: "markMultiples limit p (i + p) (isPrime[i := 0]) ! k
        = (if i + p \<le> k \<and> p dvd (k - (i + p)) then 0 else isPrime[i := 0] ! k)"
      using True "1.prems" by (intro "1.IH") simp_all
    have upd: "isPrime[i := 0] ! k = (if k = i then 0 else isPrime ! k)"
      using True "1.prems" by (simp add: nth_list_update)
    have "(i \<le> k \<and> p dvd (k - i)) \<longleftrightarrow> k = i \<or> (i + p \<le> k \<and> p dvd (k - (i + p)))"
    proof (cases "k \<le> i")
      case True
      then show ?thesis using \<open>0 < p\<close> by auto
    next
      case False
      then have ki: "0 < k - i" by simp
      show ?thesis
      proof
        assume a: "i \<le> k \<and> p dvd (k - i)"
        then have "p \<le> k - i" using ki by (intro dvd_imp_le) simp_all
        moreover have "p dvd (k - i) - p"
          using a dvd_diff_nat [of p "k - i" p] by simp
        moreover have "(k - i) - p = k - (i + p)" by simp
        ultimately show "k = i \<or> (i + p \<le> k \<and> p dvd (k - (i + p)))"
          using a by (simp add: le_diff_conv2 add.commute)
      next
        assume "k = i \<or> (i + p \<le> k \<and> p dvd (k - (i + p)))"
        then have b: "i + p \<le> k" "p dvd (k - (i + p))" using False by simp_all
        then have "k - i = (k - (i + p)) + p" by simp
        moreover have "p dvd (k - (i + p)) + p" using b(2) by simp
        ultimately have "p dvd (k - i)" by simp
        then show "i \<le> k \<and> p dvd (k - i)" using False by simp
      qed
    qed
    then show ?thesis unfolding unfold IH upd by auto
  qed
qed

lemma unmarked_Suc:
  "unmarked (Suc P) k \<longleftrightarrow> unmarked P k \<and> \<not> (2 \<le> P \<and> P * P \<le> k \<and> P dvd k)"
  unfolding unmarked_def by (auto simp: less_Suc_eq)

lemma sieved_step:
  assumes "sieved limit P isPrime" "2 \<le> P" "P * P \<le> limit"
  shows "sieved limit (Suc P)
    (if isPrime ! P \<noteq> 0 then markMultiples limit P (P * P) isPrime else isPrime)"
proof (cases "isPrime ! P \<noteq> 0")
  case True
  have len: "length isPrime = limit + 1" using assms(1) by (simp add: sieved_def)
  have "markMultiples limit P (P * P) isPrime ! k \<noteq> 0 \<longleftrightarrow> unmarked (Suc P) k" if "k \<le> limit" for k
  proof -
    have "markMultiples limit P (P * P) isPrime ! k
        = (if P * P \<le> k \<and> P dvd (k - P * P) then 0 else isPrime ! k)"
      using assms(2) len that by (intro markMultiples_nth) simp_all
    moreover have "P dvd (k - P * P) \<longleftrightarrow> P dvd k" if "P * P \<le> k"
    proof -
      have "k = (k - P * P) + P * P" using that by simp
      then have "P dvd k \<longleftrightarrow> P dvd (k - P * P) + P * P" by simp
      also have "\<dots> \<longleftrightarrow> P dvd (k - P * P)" by (rule dvd_add_left_iff) simp
      finally show ?thesis by simp
    qed
    moreover have "isPrime ! k \<noteq> 0 \<longleftrightarrow> unmarked P k"
      using assms(1) \<open>k \<le> limit\<close> by (simp add: sieved_def)
    moreover have "unmarked (Suc P) k \<longleftrightarrow> unmarked P k \<and> \<not> (P * P \<le> k \<and> P dvd k)"
      using assms(2) by (simp add: unmarked_Suc)
    ultimately show ?thesis by (cases "P * P \<le> k") simp_all
  qed
  then show ?thesis using True len by (simp add: sieved_def)
next
  case False
  have "P \<le> P * P" by (cases P) simp_all
  then have "P \<le> limit" using assms(3) by (rule order_trans)
  then have "\<not> unmarked P P" using assms(1) False by (simp add: sieved_def)
  then obtain d where d: "2 \<le> d" "d < P" "d * d \<le> P" "d dvd P"
    using assms(2) by (auto simp: unmarked_def)
  have "\<not> (P * P \<le> k \<and> P dvd k)" if "unmarked P k" for k
  proof
    assume a: "P * P \<le> k \<and> P dvd k"
    then have "d dvd k" using d(4) by (meson dvd_trans)
    moreover have "d * d \<le> k" using d(3) a \<open>P \<le> P * P\<close> by linarith
    ultimately show False using that d(1,2) by (auto simp: unmarked_def)
  qed
  then have "unmarked (Suc P) k \<longleftrightarrow> unmarked P k" for k
    by (auto simp: unmarked_Suc)
  then show ?thesis using assms(1) False by (simp add: sieved_def)
qed

lemma sieveLoop_sieved:
  "sieved limit P isPrime \<Longrightarrow> 2 \<le> P \<Longrightarrow>
   \<exists>Q. limit < Q * Q \<and> sieved limit Q (sieveLoop limit P isPrime)"
proof (induction limit P isPrime rule: sieveLoop.induct)
  case (1 limit P isPrime)
  show ?case
  proof (cases "P * P \<le> limit")
    case False
    then have "sieveLoop limit P isPrime = isPrime" by (subst sieveLoop.simps) simp
    then show ?thesis using False "1.prems" by (intro exI [of _ P]) simp
  next
    case True
    define next_arr where
      "next_arr = (if isPrime ! P \<noteq> 0 then markMultiples limit P (P * P) isPrime else isPrime)"
    have "sieveLoop limit P isPrime = sieveLoop limit (P + 1) next_arr"
      using True by (subst sieveLoop.simps) (simp add: next_arr_def)
    moreover have "sieved limit (P + 1) next_arr"
      unfolding next_arr_def using sieved_step [OF "1.prems"(1,2) True] by simp
    then have "\<exists>Q. limit < Q * Q \<and> sieved limit Q (sieveLoop limit (P + 1) next_arr)"
      unfolding next_arr_def using "1.prems" by (intro "1.IH" [OF True]) simp_all
    ultimately show ?thesis by simp
  qed
qed

lemma sieved_initial: "sieved limit 2 ((replicate (limit + 1) (1 :: 8 word))[1 := 0, 0 := 0])"
proof -
  define arr where "arr = replicate (limit + 1) (1 :: 8 word)"
  have len: "length arr = limit + 1" by (simp add: arr_def)
  have "arr[1 := 0, 0 := 0] ! k \<noteq> 0 \<longleftrightarrow> 2 \<le> k" if "k \<le> limit" for k
  proof -
    have "arr ! k = 1" using that unfolding arr_def by (intro nth_replicate) simp
    moreover have "arr[1 := 0, 0 := 0] ! k = (if k = 0 \<or> k = 1 then 0 else arr ! k)"
      using that len by (simp add: nth_list_update)
    ultimately show ?thesis by auto
  qed
  moreover have "unmarked 2 k \<longleftrightarrow> 2 \<le> k" for k
    by (auto simp: unmarked_def)
  ultimately show ?thesis unfolding arr_def [symmetric] using len by (simp add: sieved_def)
qed

lemma composite_small_divisor:
  fixes k e :: nat
  assumes "2 \<le> e" "e < k" "e dvd k"
  shows "\<exists>d. 2 \<le> d \<and> d * d \<le> k \<and> d dvd k"
proof -
  obtain q where q: "k = e * q" using assms(3) by (auto simp: dvd_def)
  have "2 \<le> q"
  proof (rule ccontr)
    assume "\<not> 2 \<le> q"
    then have "q = 0 \<or> q = 1" by auto
    then show False using q assms by auto
  qed
  show ?thesis
  proof (cases "e \<le> q")
    case True
    then have "e * e \<le> e * q" by simp
    then show ?thesis using assms q by auto
  next
    case False
    then have "q * q \<le> e * q" by simp
    then show ?thesis using \<open>2 \<le> q\<close> q by auto
  qed
qed

lemma is_prime_nat_iff:
  "is_prime (int k) \<longleftrightarrow> 2 \<le> k \<and> (\<forall>d. 2 \<le> d \<and> d * d \<le> k \<longrightarrow> \<not> d dvd k)"
proof
  assume p: "is_prime (int k)"
  then have k: "2 \<le> k" by (simp add: is_prime_def)
  have "\<not> d dvd k" if d: "2 \<le> d" "d * d \<le> k" for d
  proof
    assume "d dvd k"
    have "d * 2 \<le> d * d" using d(1) by simp
    then have "d < k" using d by linarith
    then have "int d \<in> {2..<int k}" using d(1) by simp
    moreover have "int d dvd int k" using \<open>d dvd k\<close> by simp
    ultimately show False using p unfolding is_prime_def by blast
  qed
  with k show "2 \<le> k \<and> (\<forall>d. 2 \<le> d \<and> d * d \<le> k \<longrightarrow> \<not> d dvd k)" by blast
next
  assume a: "2 \<le> k \<and> (\<forall>d. 2 \<le> d \<and> d * d \<le> k \<longrightarrow> \<not> d dvd k)"
  have "\<not> e dvd int k" if "e \<in> {2..<int k}" for e
  proof
    assume "e dvd int k"
    then have "nat e dvd k" using that by (simp add: nat_dvd_iff)
    moreover have "2 \<le> nat e" "nat e < k" using that by auto
    ultimately obtain d where "2 \<le> d" "d * d \<le> k" "d dvd k"
      using composite_small_divisor by blast
    then show False using a by blast
  qed
  then show "is_prime (int k)" using a by (simp add: is_prime_def)
qed

lemma unmarked_final:
  assumes "limit < Q * Q" "k \<le> limit"
  shows "unmarked Q k \<longleftrightarrow> is_prime (int k)"
proof -
  have "d < Q" if "d * d \<le> k" for d
  proof (rule ccontr)
    assume "\<not> d < Q"
    then have "Q * Q \<le> d * d" by (simp add: mult_le_mono)
    then show False using that assms by simp
  qed
  then show ?thesis unfolding unmarked_def is_prime_nat_iff by blast
qed

theorem generatePrimes_primes:
  "generatePrimes limit = map int (filter (\<lambda>i. is_prime (int i)) [0..<limit + 1])"
proof -
  define arr where "arr = sieveLoop limit 2 ((replicate (limit + 1) (1 :: 8 word))[1 := 0, 0 := 0])"
  obtain Q where Q: "limit < Q * Q" "sieved limit Q arr"
    unfolding arr_def using sieveLoop_sieved [OF sieved_initial, of limit] by auto
  have "filter (\<lambda>i. arr ! i \<noteq> 0) [0..<limit + 1] = filter (\<lambda>i. is_prime (int i)) [0..<limit + 1]"
  proof (rule filter_cong [OF refl])
    fix k assume "k \<in> set [0..<limit + 1]"
    then have "k \<le> limit" by auto
    then show "(arr ! k \<noteq> 0) = is_prime (int k)"
      using Q unmarked_final [OF Q(1)] by (simp add: sieved_def)
  qed
  moreover have "generatePrimes limit = map int (filter (\<lambda>i. arr ! i \<noteq> 0) [0..<limit + 1])"
    by (simp only: generatePrimes_def Let_def arr_def)
  ultimately show ?thesis by (simp only:)
qed

lemma set_smallPrimes: "set smallPrimes = {p. is_prime p \<and> p \<le> 100000}"
proof -
  have "set smallPrimes = int ` {i. i \<le> 100000 \<and> is_prime (int i)}"
    by (auto simp: smallPrimes_def PRIME_LIMIT_def generatePrimes_primes)
  also have "\<dots> = {p. is_prime p \<and> p \<le> 100000}"
  proof (intro set_eqI iffI)
    fix p assume "p \<in> {p. is_prime p \<and> p \<le> 100000}"
    then have "p = int (nat p)" "nat p \<le> 100000" "is_prime (int (nat p))"
      by (auto simp: is_prime_def)
    then show "p \<in> int ` {i. i \<le> 100000 \<and> is_prime (int i)}" by blast
  qed auto
  finally show ?thesis .
qed

lemma smallPrimes_ge_2: "p \<in> set smallPrimes \<Longrightarrow> 2 \<le> p"
  by (simp add: set_smallPrimes is_prime_def)

lemma sorted_smallPrimes: "sorted_wrt (<) smallPrimes"
proof -
  have "sorted_wrt (<) (filter (\<lambda>i. is_prime (int i)) [0..<PRIME_LIMIT + 1])"
    by (intro sorted_wrt_filter) (simp del: upt_Suc)
  then show ?thesis
    by (simp add: smallPrimes_def generatePrimes_primes sorted_wrt_map del: upt_Suc)
qed

lemma generatePrimes_prefix:
  assumes "7 \<le> limit"
  shows "\<exists>rest. generatePrimes limit = 2 # 3 # 5 # 7 # rest"
proof -
  define k where "k = limit - 7"
  define P where "P = (\<lambda>i. is_prime (int i))"
  have "limit + 1 = 8 + k" using assms by (simp add: k_def)
  then have "[0..<limit + 1] = [0..<8] @ [8..<8 + k]"
    by (simp only: upt_add_eq_append [OF le0])
  then have "generatePrimes limit = map int (filter P [0..<8]) @ map int (filter P [8..<8 + k])"
    by (simp only: generatePrimes_primes P_def filter_append map_append)
  moreover have "[0..<8] = [0, 1, 2, 3, 4, 5, 6, 7 :: nat]"
    by code_simp
  moreover have "is_prime 2" "is_prime 3" "is_prime 5" "is_prime 7"
    "\<not> is_prime 0" "\<not> is_prime 1" "\<not> is_prime 4" "\<not> is_prime 6"
    by (simp_all add: is_prime_upto upto_rec1)
  then have "map int (filter P [0, 1, 2, 3, 4, 5, 6, 7]) = [2, 3, 5, 7]"
    by (simp add: P_def)
  ultimately show ?thesis by simp
qed

lemma smallPrimes_prefix: "\<exists>rest. smallPrimes = 2 # 3 # 5 # 7 # rest"
  unfolding smallPrimes_def by (rule generatePrimes_prefix) (simp add: PRIME_LIMIT_def)

section \<open>Trial division and the work-stack loop\<close>

lemma factorProduct_Nil [simp]: "factorProduct [] = 1"
  by (simp add: factorProduct_def)

lemma factorProduct_Cons [simp]: "factorProduct ((p, c) # fs) = p ^ c * factorProduct fs"
  by (simp add: factorProduct_def)

lemma factorProduct_increment [simp]: "factorProduct (increment fs p) = factorProduct fs * p"
  by (induction fs p rule: increment.induct) simp_all

lemma divideOut_returns:
  assumes "2 \<le> p"
  shows "1 \<le> n \<Longrightarrow> \<exists>n' fs'. divideOut p n fs = Returns (n', fs') \<and> 1 \<le> n' \<and> n' dvd n \<and>
    \<not> p dvd n' \<and> factorProduct fs' * n' = factorProduct fs * n"
proof (induction "nat n" arbitrary: n fs rule: less_induct)
  case less
  have rem: "bigint_rem n p = n mod p" and quo: "bigint_div n p = n div p"
    using assms less.prems by simp_all
  show ?case
  proof (cases "p dvd n")
    case False
    then have "divideOut p n fs = Returns (n, fs)"
      using assms by (subst divideOut.simps) (simp add: rem dvd_eq_mod_eq_0)
    then show ?thesis using False less.prems by simp
  next
    case True
    then have unfold: "divideOut p n fs = divideOut p (n div p) (increment fs p)"
      using assms less.prems by (subst divideOut.simps) (simp add: rem quo dvd_eq_mod_eq_0)
    have n: "n = p * (n div p)" using True by simp
    have pos: "1 \<le> n div p"
      using assms less.prems True by (simp add: pos_imp_zdiv_pos_iff zdvd_imp_le)
    have "n div p < n" using assms less.prems by (intro int_div_less_self) simp_all
    then have "nat (n div p) < nat n" using pos by simp
    then obtain n' fs' where *: "divideOut p (n div p) (increment fs p) = Returns (n', fs')"
      "1 \<le> n'" "n' dvd n div p" "\<not> p dvd n'"
      "factorProduct fs' * n' = factorProduct (increment fs p) * (n div p)"
      using less.hyps [OF _ pos, of "increment fs p"] by blast
    have "n' dvd n" using *(3) n by (metis dvd_mult)
    moreover have "factorProduct fs' * n' = factorProduct fs * n"
      using *(5) n by (simp add: mult.assoc)
    ultimately show ?thesis using * unfold by simp
  qed
qed

lemma trialDivision_returns:
  "\<forall>p\<in>set ps. 2 \<le> p \<Longrightarrow> 1 \<le> n \<Longrightarrow>
   \<exists>n' fs'. trialDivision ps n fs = Returns (n', fs') \<and> 1 \<le> n' \<and> n' dvd n \<and>
     factorProduct fs' * n' = factorProduct fs * n"
proof (induction ps arbitrary: n fs)
  case Nil
  then show ?case by simp
next
  case (Cons p ps)
  show ?case
  proof (cases "p * p > n")
    case True
    then show ?thesis using Cons.prems by simp
  next
    case False
    have "2 \<le> p" using Cons.prems by simp
    then obtain n1 fs1 where 1: "divideOut p n fs = Returns (n1, fs1)" "1 \<le> n1" "n1 dvd n"
      "factorProduct fs1 * n1 = factorProduct fs * n"
      using divideOut_returns [of p n fs] Cons.prems by blast
    obtain n' fs' where 2: "trialDivision ps n1 fs1 = Returns (n', fs')" "1 \<le> n'" "n' dvd n1"
      "factorProduct fs' * n' = factorProduct fs1 * n1"
      using Cons.IH [of n1 fs1] Cons.prems 1 by auto
    have "n' dvd n" using 1(3) 2(3) by (rule dvd_trans [rotated])
    then show ?thesis using False 1 2 by simp
  qed
qed

lemma trialDivision_smallPrimes:
  assumes "1 \<le> n"
  shows "\<exists>m fs. trialDivision smallPrimes n [] = Returns (m, fs) \<and> 1 \<le> m \<and> m dvd n \<and>
    factorProduct fs * m = n"
  using trialDivision_returns [of smallPrimes n "[]"] assms smallPrimes_ge_2 by auto

lemma loopBody_invariant:
  assumes "1 \<le> target" "\<forall>t\<in>set stack. 1 \<le> t"
    and "loopBody fuel target stack fs rs = Returns (stack', fs', rs')"
  shows "(\<forall>t\<in>set stack'. 1 \<le> t) \<and>
    factorProduct fs' * prod_list stack' = factorProduct fs * (target * prod_list stack)"
proof (cases "target = 1")
  case True
  then show ?thesis using assms by (simp add: loopBody_def)
next
  case False
  then have t: "2 \<le> target" using assms(1) by simp
  obtain certified rs1 where mr: "isPrimeMillerRabin target 5 rs = Returns (certified, rs1)"
    using assms(3) False by (cases "isPrimeMillerRabin target 5 rs") (auto simp: loopBody_def)
  show ?thesis
  proof (cases certified)
    case True
    then have "stack' = stack" "fs' = increment fs target"
      using assms(3) \<open>target \<noteq> 1\<close> mr by (simp_all add: loopBody_def)
    then show ?thesis using assms(2) by (simp add: mult.assoc)
  next
    case False
    obtain factor rs2 where rho: "pollardRho fuel target rs1 = Returns (factor, rs2)"
      using assms(3) \<open>target \<noteq> 1\<close> mr False
      by (cases "pollardRho fuel target rs1") (auto simp: loopBody_def)
    have f: "factor dvd target \<and> 1 < factor \<and> factor \<le> target"
    proof (cases "even target")
      case True
      then show ?thesis using pollardRho_result [OF t rho] t by simp
    next
      case False
      then show ?thesis using pollardRho_result [OF t rho] by simp
    qed
    have quo: "bigint_div target factor = target div factor"
      using f t by simp
    have res: "stack' = target div factor # factor # stack" "fs' = fs"
      using assms(3) \<open>target \<noteq> 1\<close> mr False rho f by (simp_all add: loopBody_def quo)
    have "0 < target div factor"
      using f by (subst pos_imp_zdiv_pos_iff) simp_all
    then have "1 \<le> target div factor" by simp
    moreover have "target div factor * (factor * prod_list stack) = target * prod_list stack"
      using f by (simp add: mult.assoc [symmetric])
    ultimately show ?thesis using res f assms(2) by simp
  qed
qed

lemma loopState_invariant:
  assumes "1 \<le> n"
  shows "loopState n s \<Longrightarrow>
    (\<forall>t\<in>set (fst s). 1 \<le> t) \<and> factorProduct (fst (snd s)) * prod_list (fst s) = n"
proof (induction rule: loopState.induct)
  case (enter m fs rs)
  then show ?case using trialDivision_smallPrimes [OF assms] by auto
next
  case (pass target stack fs rs fuel s')
  obtain stack' fs' rs' where s': "s' = (stack', fs', rs')" by (cases s') auto
  show ?case
    using loopBody_invariant [of target stack fuel fs rs stack' fs' rs'] pass s'
    by (simp add: mult.assoc)
qed

lemma stackLoop_loopState:
  "loopState n (stack, fs, rs) \<Longrightarrow> stackLoop fuel stack fs rs = Returns (fs', rs') \<Longrightarrow>
   loopState n ([], fs', rs')"
proof (induction fuel stack fs rs rule: stackLoop.induct)
  case (1 fuel fs rs)
  then show ?case by simp
next
  case (2 target stack fs rs)
  then show ?case by simp
next
  case (3 fuel target stack fs rs)
  obtain st1 fs1 rs1 where b: "loopBody fuel target stack fs rs = Returns (st1, fs1, rs1)"
    using "3.prems"(2) by (cases "loopBody fuel target stack fs rs") auto
  then have "loopState n (st1, fs1, rs1)" using "3.prems"(1) by (rule loopState.pass [rotated])
  moreover have "stackLoop fuel st1 fs1 rs1 = Returns (fs', rs')" using "3.prems"(2) b by simp
  ultimately show ?case using "3.IH" b by simp
qed

lemma factorize_product:
  assumes "1 \<le> n" "factorize fuel n rs = Returns (fs, rs')"
  shows "factorProduct fs = n"
proof -
  obtain m fs0 where td: "trialDivision smallPrimes n [] = Returns (m, fs0)"
    "factorProduct fs0 * m = n"
    using trialDivision_smallPrimes [OF assms(1)] by blast
  show ?thesis
  proof (cases "m = 1")
    case True
    then show ?thesis using assms(2) td by (simp add: factorize_def)
  next
    case False
    then have "stackLoop fuel [m] fs0 rs = Returns (fs, rs')"
      using assms(2) td by (simp add: factorize_def)
    moreover have "loopState n ([m], fs0, rs)" using td(1) False by (rule loopState.enter)
    ultimately have "loopState n ([], fs, rs')" by (rule stackLoop_loopState [rotated])
    then show ?thesis using loopState_invariant [OF assms(1)] by fastforce
  qed
qed

section \<open>Round trip, concrete decompositions and the loop invariant\<close>

lemma trialDivision_1: "trialDivision smallPrimes 1 [] = Returns (1, [])"
proof -
  obtain rest where sp: "smallPrimes = 2 # 3 # 5 # 7 # rest" using smallPrimes_prefix by blast
  show ?thesis unfolding sp by simp
qed

lemma trialDivision_2: "trialDivision smallPrimes 2 [] = Returns (2, [])"
proof -
  obtain rest where sp: "smallPrimes = 2 # 3 # 5 # 7 # rest" using smallPrimes_prefix by blast
  show ?thesis unfolding sp by simp
qed

lemma trialDivision_17: "trialDivision smallPrimes 17 [] = Returns (17, [])"
proof -
  obtain rest where sp: "smallPrimes = 2 # 3 # 5 # 7 # rest" using smallPrimes_prefix by blast
  show ?thesis unfolding sp by (simp add: divideOut.simps)
qed

lemma trialDivision_360: "trialDivision smallPrimes 360 [] = Returns (5, [(2, 3), (3, 2)])"
proof -
  obtain rest where sp: "smallPrimes = 2 # 3 # 5 # 7 # rest" using smallPrimes_prefix by blast
  show ?thesis unfolding sp by (simp add: divideOut.simps)
qed

lemma roundsLoop_numeral:
  "roundsLoop (numeral v) n d r rs =
     andThen (randBigInt 2 (n - 2) rs) (\<lambda>(a, rs').
     andThen (modPow a d n) (\<lambda>x.
       if x = 1 \<or> x = n - 1 then roundsLoop (pred_numeral v) n d r rs'
       else if squareLoop 0 r x n then roundsLoop (pred_numeral v) n d r rs'
       else Returns (False, rs')))"
  by (simp add: numeral_eq_Suc)

lemma stackLoop_prime:
  assumes "is_prime m"
  shows "\<exists>rs'. stackLoop (Suc fuel) [m] fs rs = Returns (increment fs m, rs')"
proof -
  obtain rs1 where "isPrimeMillerRabin m 5 rs = Returns (True, rs1)"
    using isPrimeMillerRabin_prime [OF assms] by blast
  moreover have "m \<noteq> 1" using assms by (auto simp: is_prime_def)
  ultimately have "loopBody fuel m [] fs rs = Returns ([], increment fs m, rs1)"
    by (simp add: loopBody_def)
  then show ?thesis by simp
qed

lemma factorize_prime_remainder:
  assumes "trialDivision smallPrimes n [] = Returns (m, fs)" "is_prime m"
  shows "\<exists>rs'. factorize (Suc fuel) n rs = Returns (increment fs m, rs')"
proof -
  have "m \<noteq> 1" using assms(2) by (auto simp: is_prime_def)
  then show ?thesis
    using stackLoop_prime [OF assms(2), of fuel fs rs] assms(1) by (simp add: factorize_def)
qed

lemma is_prime_small: "is_prime 2" "is_prime 5" "is_prime 17"
  by (simp_all add: is_prime_upto upto_rec1)

lemma factorize_360: "\<exists>rs'. factorize (Suc fuel) 360 rs = Returns ([(2, 3), (3, 2), (5, 1)], rs')"
  using factorize_prime_remainder [OF trialDivision_360 is_prime_small(2), of fuel rs] by simp

text \<open>
  C8. For every sequence of random values, \<open>factorize(1)\<close> returns the empty object,
  \<open>factorize(2)\<close> returns \<open>{2: 1}\<close>, \<open>factorize(17)\<close> returns \<open>{17: 1}\<close> and \<open>factorize(360)\<close> returns
  \<open>{2: 3, 3: 2, 5: 1}\<close>. One pass of the work-stack loop suffices for the last three; no pass
  is needed for the first.
\<close>

theorem factorize_examples:
  "(\<exists>rs'. factorize fuel 1 rs = Returns ([], rs')) \<and>
   (\<exists>rs'. factorize (Suc fuel) 2 rs = Returns ([(2, 1)], rs')) \<and>
   (\<exists>rs'. factorize (Suc fuel) 17 rs = Returns ([(17, 1)], rs')) \<and>
   (\<exists>rs'. factorize (Suc fuel) 360 rs = Returns ([(2, 3), (3, 2), (5, 1)], rs'))"
proof -
  have "factorize fuel 1 rs = Returns ([], rs)"
    by (simp add: factorize_def trialDivision_1)
  moreover have "\<exists>rs'. factorize (Suc fuel) 2 rs = Returns ([(2, 1)], rs')"
    using factorize_prime_remainder [OF trialDivision_2 is_prime_small(1), of fuel rs] by simp
  moreover have "\<exists>rs'. factorize (Suc fuel) 17 rs = Returns ([(17, 1)], rs')"
    using factorize_prime_remainder [OF trialDivision_17 is_prime_small(3), of fuel rs] by simp
  ultimately show ?thesis using factorize_360 [of fuel rs] by blast
qed

text \<open>
  C1. For every \<open>n \<ge> 1\<close> and every sequence of random values, whenever \<open>factorize(n)\<close> returns,
  the product of \<open>key ^ count\<close> over the returned object is \<open>n\<close>.
\<close>

theorem factorize_product_is_input:
  "1 \<le> n \<Longrightarrow> factorize fuel n rs = Returns (fs, rs') \<Longrightarrow> factorProduct fs = n"
  by (rule factorize_product)

theorem factorize_product_is_input_witness:
  "\<exists>rs'. factorize 1 360 (\<lambda>_. 0) = Returns ([(2, 3), (3, 2), (5, 1)], rs') \<and>
     factorProduct [(2, 3), (3, 2), (5, 1)] = 360"
proof -
  obtain rs' where run: "factorize 1 360 (\<lambda>_. 0) = Returns ([(2, 3), (3, 2), (5, 1)], rs')"
    using factorize_360 [of 0 "\<lambda>_. 0"] by auto
  have "(1::int) \<le> 360" by simp
  from factorize_product_is_input [OF this run] run show ?thesis by blast
qed

text \<open>
  C10. At every iteration of the work-stack loop of \<open>factorize(n)\<close>, for \<open>n \<ge> 1\<close>, the product
  of \<open>key ^ count\<close> over the factors recorded so far times the product of the values on the
  stack is \<open>n\<close>: it holds when the loop is entered, and each pass of the body (discarding 1,
  recording a certified prime, splitting a composite) leads to a state where it holds.
\<close>

theorem stack_loop_invariant:
  "1 \<le> n \<Longrightarrow> loopState n (stack, fs, rs) \<Longrightarrow> factorProduct fs * prod_list stack = n"
  using loopState_invariant [of n "(stack, fs, rs)"] by simp

theorem stack_loop_invariant_witness:
  "loopState 360 ([5], [(2, 3), (3, 2)], \<lambda>_. 0) \<and>
   loopState 360 ([], [(2, 3), (3, 2), (5, 1)], \<lambda>_. 0) \<and>
   factorProduct [(2, 3), (3, 2)] * prod_list [5] = 360 \<and>
   factorProduct [(2, 3), (3, 2), (5, 1)] * prod_list [] = 360"
proof -
  have s0: "loopState 360 ([5], [(2, 3), (3, 2)], \<lambda>_. 0)"
    using trialDivision_360 by (rule loopState.enter) simp
  have "modPow 2 1 5 = Returns 2" by (simp add: modPow_def modPowLoop.simps)
  moreover have "squareLoop 0 2 2 5" by (simp add: squareLoop.simps)
  ultimately have "roundsLoop 5 5 1 2 (\<lambda>_. 0) = Returns (True, \<lambda>_. 0)"
    by (simp add: roundsLoop_numeral randBigInt_def nextRandom_def)
  moreover have "splitPowerOfTwo 4 0 = Returns (1, 2)" by (simp add: splitPowerOfTwo.simps)
  ultimately have "isPrimeMillerRabin 5 5 (\<lambda>_. 0) = Returns (True, \<lambda>_. 0)"
    by (simp add: isPrimeMillerRabin_def)
  then have "loopBody 0 5 [] [(2, 3), (3, 2)] (\<lambda>_. 0)
      = Returns ([], [(2, 3), (3, 2), (5, 1)], \<lambda>_. 0)"
    by (simp add: loopBody_def)
  with s0 have s1: "loopState 360 ([], [(2, 3), (3, 2), (5, 1)], \<lambda>_. 0)"
    by (rule loopState.pass)
  have n: "(1::int) \<le> 360" by simp
  from stack_loop_invariant [OF n s0] stack_loop_invariant [OF n s1] s0 s1
  show ?thesis by blast
qed

section \<open>Termination of factorize\<close>

lemma Ball_int_step:
  "lo \<le> hi \<Longrightarrow> (\<forall>d\<in>{lo..hi::int}. P d) \<longleftrightarrow> P lo \<and> (\<forall>d\<in>{lo + 1..hi}. P d)"
proof -
  assume "lo \<le> hi"
  then have "{lo..hi} = insert lo {lo + 1..hi}" by auto
  then show ?thesis by simp
qed

lemma Ball_int_stop: "hi < lo \<Longrightarrow> (\<forall>d\<in>{lo..hi::int}. P d) \<longleftrightarrow> True"
  by simp

lemma is_prime_by_trial:
  assumes "1 < p" "0 \<le> r" "p < (r + 1) * (r + 1)" "\<forall>d\<in>{2..r}. \<not> d dvd p"
  shows "is_prime p"
proof -
  have "\<not> e dvd p" if e: "e \<in> {2..<p}" for e
  proof
    assume "e dvd p"
    then obtain f where f: "p = e * f" by (auto simp: dvd_def)
    have "0 < e * f" using f assms(1) by simp
    then have "0 < f" using e by (simp add: zero_less_mult_iff)
    have "f \<noteq> 1" using f e by auto
    with \<open>0 < f\<close> have "2 \<le> f" by simp
    have "e \<le> r \<or> f \<le> r"
    proof (rule ccontr)
      assume "\<not> (e \<le> r \<or> f \<le> r)"
      then have "r + 1 \<le> e" "r + 1 \<le> f" by simp_all
      moreover have "0 \<le> r + 1" using assms(2) by simp
      ultimately have "(r + 1) * (r + 1) \<le> e * f" by (intro mult_mono) simp_all
      then show False using f assms(3) by simp
    qed
    then show False
    proof
      assume "e \<le> r"
      then have "e \<in> {2..r}" using e by simp
      then show False using assms(4) \<open>e dvd p\<close> by blast
    next
      assume "f \<le> r"
      then have "f \<in> {2..r}" using \<open>2 \<le> f\<close> by simp
      moreover have "f dvd p" using f by simp
      ultimately show False using assms(4) by blast
    qed
  qed
  then show ?thesis using assms(1) by (simp add: is_prime_def)
qed

lemma is_prime_100003: "is_prime 100003"
  by (rule is_prime_by_trial [of _ 316]) (simp_all add: Ball_int_step Ball_int_stop)

lemma divideOut_no_divisor:
  assumes "2 \<le> p" "1 \<le> n" "\<not> p dvd n"
  shows "divideOut p n fs = Returns (n, fs)"
proof -
  have "bigint_rem n p = n mod p" using assms by simp
  then show ?thesis using assms by (subst divideOut.simps) (simp add: dvd_eq_mod_eq_0)
qed

lemma trialDivision_no_divisor:
  "\<forall>p\<in>set ps. 2 \<le> p \<and> \<not> p dvd n \<Longrightarrow> 1 \<le> n \<Longrightarrow> trialDivision ps n fs = Returns (n, fs)"
  by (induction ps) (simp_all add: divideOut_no_divisor)

lemma trialDivision_prime_square:
  assumes "is_prime q" "100000 < q"
  shows "trialDivision smallPrimes (q * q) [] = Returns (q * q, [])"
proof (rule trialDivision_no_divisor)
  have q: "1 < q" using assms(1) by (simp add: is_prime_def)
  then have "1 * 1 \<le> q * q" by (intro mult_mono) simp_all
  then show "1 \<le> q * q" by simp
  show "\<forall>p\<in>set smallPrimes. 2 \<le> p \<and> \<not> p dvd q * q"
  proof
    fix p assume "p \<in> set smallPrimes"
    then have p: "is_prime p" "p \<le> 100000" "2 \<le> p"
      by (simp_all add: set_smallPrimes is_prime_def)
    have "\<not> p dvd q * q"
    proof
      assume "p dvd q * q"
      then have "p dvd q" using is_prime_dvd_mult [OF p(1)] by blast
      then have "p = 1 \<or> p = q" using p(3) by (intro is_primeD [OF assms(1)]) simp_all
      then show False using p assms(2) by simp
    qed
    with p show "2 \<le> p \<and> \<not> p dvd q * q" by simp
  qed
qed


text \<open>
  The input \<open>100003\<^sup>2\<close> with the random source stuck at \<open>100003\<^sup>2 - 3\<close>: trial division finds
  nothing, the witness 3 shows the number composite, and each attempt of \<open>pollardRho\<close> starts
  at \<open>x = 2\<close> with \<open>c = n - 2\<close>, a fixed point of \<open>x \<mapsto> x\<^sup>2 + c mod n\<close>, so that \<open>g = n\<close> and the
  search starts again with the same values.
\<close>

lemma trialDivision_10000600009:
  "trialDivision smallPrimes 10000600009 [] = Returns (10000600009, [])"
  using trialDivision_prime_square [OF is_prime_100003] by simp

lemma millerRabin_10000600009:
  "isPrimeMillerRabin 10000600009 5 (\<lambda>_. 10000600006) = Returns (False, \<lambda>_. 10000600006)"
proof -
  have "splitPowerOfTwo 10000600008 0 = Returns (1250075001, 3)"
    by (simp add: splitPowerOfTwo.simps)
  moreover have "modPow 3 1250075001 10000600009 = Returns 5076252282"
    by (simp add: modPow_def modPowLoop.simps)
  moreover have "\<not> squareLoop 0 3 5076252282 10000600009"
    by (simp add: squareLoop.simps)
  ultimately show ?thesis
    by (simp add: isPrimeMillerRabin_def roundsLoop_numeral randBigInt_def nextRandom_def)
qed

lemma pollardRho_10000600009:
  "pollardRho fuel 10000600009 (\<lambda>_. 10000600006) = NoReturn"
proof (induction fuel)
  case 0
  show ?case by (simp add: randBigInt_def nextRandom_def)
next
  case (Suc fuel)
  have "gcd_js 0 10000600009 = 10000600009"
    by (simp add: gcd_js.simps)
  then have "rhoLoop (Suc fuel) 10000600009 2 2 10000600007 (\<lambda>_. 10000600006)
      = pollardRho fuel 10000600009 (\<lambda>_. 10000600006)"
    by (simp del: pollardRho.simps)
  moreover have "pollardRho (Suc fuel) 10000600009 (\<lambda>_. 10000600006)
      = rhoLoop (Suc fuel) 10000600009 2 2 10000600007 (\<lambda>_. 10000600006)"
    by (simp add: randBigInt_def nextRandom_def del: rhoLoop.simps)
  ultimately show ?case using Suc.IH by simp
qed

lemma factorize_10000600009:
  "factorize fuel 10000600009 (\<lambda>_. 10000600006) = NoReturn"
proof -
  have "stackLoop fuel [10000600009] [] (\<lambda>_. 10000600006) = NoReturn"
  proof (cases fuel)
    case 0
    then show ?thesis by simp
  next
    case (Suc k)
    have "loopBody k 10000600009 [] [] (\<lambda>_. 10000600006) = NoReturn"
      by (simp add: loopBody_def millerRabin_10000600009 pollardRho_10000600009
          del: pollardRho.simps)
    then show ?thesis using Suc by simp
  qed
  then show ?thesis by (simp add: factorize_def trialDivision_10000600009)
qed

text \<open>
  C2, as stated, fails: \<open>factorize(10000600009)\<close> returns no result, whatever the fuel, when
  every draw of the random source is 10000600006 (a value below \<open>MAX_SAFE_INTEGER\<close>).
\<close>

theorem factorize_not_total_counterexample:
  "(1::int) \<le> 10000600009 \<and> (10000600006::nat) < MAX_SAFE_INTEGER \<and>
   \<not> (\<exists>fuel res. factorize fuel 10000600009 (\<lambda>_. 10000600006) = Returns res)"
  by (simp add: factorize_10000600009 MAX_SAFE_INTEGER_def)

lemma prime_divisor_exists: "2 \<le> n \<Longrightarrow> \<exists>q. is_prime q \<and> q dvd n"
proof (induction "nat n" arbitrary: n rule: less_induct)
  case less
  show ?case
  proof (cases "is_prime n")
    case True
    then show ?thesis by auto
  next
    case False
    then obtain e where e: "e \<in> {2..<n}" "e dvd n"
      using less.prems by (auto simp: is_prime_def)
    then have "nat e < nat n" "2 \<le> e" by simp_all
    then obtain q where "is_prime q" "q dvd e" using less.hyps by blast
    then show ?thesis using e(2) by (meson dvd_trans)
  qed
qed

lemma composite_prime_divisor:
  assumes "2 \<le> n" "\<not> is_prime n"
  shows "\<exists>q. is_prime q \<and> q dvd n \<and> q * q \<le> n"
proof -
  obtain e where e: "e \<in> {2..<n}" "e dvd n"
    using assms by (auto simp: is_prime_def)
  then obtain f where f: "n = e * f" by (auto simp: dvd_def)
  have "0 < e * f" using f assms(1) by simp
  then have "0 < f" using e by (simp add: zero_less_mult_iff)
  moreover have "f \<noteq> 1" using f e by auto
  ultimately have f2: "2 \<le> f" by simp
  define d where "d = min e f"
  have d: "2 \<le> d" "d dvd n" "d * d \<le> n"
  proof -
    show "2 \<le> d" using e f2 by (simp add: d_def)
    show "d dvd n" using f by (simp add: d_def min_def)
    have "d \<le> e" "d \<le> f" by (simp_all add: d_def)
    then have "d * d \<le> e * f" using \<open>2 \<le> d\<close> by (intro mult_mono) simp_all
    then show "d * d \<le> n" using f by simp
  qed
  obtain q where q: "is_prime q" "q dvd d" using prime_divisor_exists [OF d(1)] by blast
  have "q \<le> d" using q(2) d(1) by (intro zdvd_imp_le) simp_all
  moreover have "0 \<le> q" using q(1) by (simp add: is_prime_def)
  ultimately have "q * q \<le> d * d" by (intro mult_mono) simp_all
  then have "q * q \<le> n" using d(3) by simp
  moreover have "q dvd n" using q(2) d(2) by (rule dvd_trans)
  ultimately show ?thesis using q(1) by blast
qed

lemma trialDivision_remainder:
  "sorted_wrt (<) ps \<Longrightarrow> set ps = {q. is_prime q \<and> lo \<le> q \<and> q \<le> B} \<Longrightarrow> 1 \<le> n \<Longrightarrow>
   \<forall>q. is_prime q \<and> q < lo \<longrightarrow> \<not> q dvd n \<Longrightarrow>
   \<exists>m fs'. trialDivision ps n fs = Returns (m, fs') \<and> 1 \<le> m \<and> m \<le> n \<and>
     (\<forall>q. is_prime q \<and> q dvd m \<longrightarrow> B < q \<or> m < q * q)"
proof (induction ps arbitrary: lo n fs)
  case Nil
  have "B < q" if "is_prime q" "q dvd n" for q
  proof (rule ccontr)
    assume "\<not> B < q"
    moreover have "lo \<le> q" using Nil.prems(4) that by force
    ultimately have "q \<in> set []" using that(1) unfolding Nil.prems(2) by simp
    then show False by simp
  qed
  then show ?case using Nil.prems(3) by auto
next
  case (Cons p ps)
  have p: "is_prime p" "lo \<le> p" "p \<le> B"
    using Cons.prems(2) by auto
  then have p2: "2 \<le> p" by (simp add: is_prime_def)
  have above: "p < x" if "x \<in> set ps" for x using Cons.prems(1) that by simp
  have member: "q = p \<or> p < q" if "is_prime q" "lo \<le> q" "q \<le> B" for q
  proof -
    have "q \<in> set (p # ps)" using that unfolding Cons.prems(2) by simp
    then show ?thesis using above by auto
  qed
  show ?case
  proof (cases "p * p > n")
    case True
    have "B < q \<or> n < q * q" if q: "is_prime q" "q dvd n" for q
    proof (cases "q \<le> B")
      case False
      then show ?thesis by simp
    next
      case qB: True
      have "lo \<le> q" using Cons.prems(4) q by force
      then have "p \<le> q" using member [OF q(1) _ qB] by auto
      then have "p * p \<le> q * q" using p2 by (intro mult_mono) simp_all
      then show ?thesis using True by simp
    qed
    then show ?thesis using True Cons.prems(3) by simp
  next
    case False
    obtain n1 fs1 where 1: "divideOut p n fs = Returns (n1, fs1)" "1 \<le> n1" "n1 dvd n"
      "\<not> p dvd n1"
      using divideOut_returns [OF p2 Cons.prems(3), of fs] by blast
    have n1: "n1 \<le> n" using 1(3) Cons.prems(3) by (intro zdvd_imp_le) simp_all
    have "set ps = {q. is_prime q \<and> p + 1 \<le> q \<and> q \<le> B}"
    proof (intro set_eqI iffI)
      fix x assume x: "x \<in> set ps"
      then have "x \<in> set (p # ps)" by simp
      then have "is_prime x" "x \<le> B" unfolding Cons.prems(2) by simp_all
      then show "x \<in> {q. is_prime q \<and> p + 1 \<le> q \<and> q \<le> B}" using above [OF x] by simp
    next
      fix x assume "x \<in> {q. is_prime q \<and> p + 1 \<le> q \<and> q \<le> B}"
      then have x: "is_prime x" "p + 1 \<le> x" "x \<le> B" by simp_all
      then have "x \<in> set (p # ps)" using p(2) unfolding Cons.prems(2) by simp
      then show "x \<in> set ps" using x(2) by auto
    qed
    moreover have "\<forall>q. is_prime q \<and> q < p + 1 \<longrightarrow> \<not> q dvd n1"
    proof (intro allI impI)
      fix q assume q: "is_prime q \<and> q < p + 1"
      show "\<not> q dvd n1"
      proof (cases "q < lo")
        case True
        then have "\<not> q dvd n" using Cons.prems(4) q by blast
        then show ?thesis using 1(3) by (meson dvd_trans)
      next
        case False
        then have "q = p \<or> p < q" using member [of q] q p(3) by simp
        then have "q = p" using q by simp
        then show ?thesis using 1(4) by simp
      qed
    qed
    moreover have "sorted_wrt (<) ps" using Cons.prems(1) by simp
    ultimately obtain m fs' where 2: "trialDivision ps n1 fs1 = Returns (m, fs')" "1 \<le> m"
      "m \<le> n1" "\<forall>q. is_prime q \<and> q dvd m \<longrightarrow> B < q \<or> m < q * q"
      using Cons.IH [of "p + 1" n1 fs1] 1(2) by blast
    then show ?thesis using False 1(1) n1 by simp
  qed
qed

lemma not_prime_100001: "\<not> is_prime 100001" "\<not> is_prime 100002"
proof -
  have "(11::int) dvd 100001" "(11::int) \<in> {2..<100001}" by simp_all
  then show "\<not> is_prime 100001" unfolding is_prime_def by blast
  have "(2::int) dvd 100002" "(2::int) \<in> {2..<100002}" by simp_all
  then show "\<not> is_prime 100002" unfolding is_prime_def by blast
qed

lemma trialDivision_small_remainder:
  assumes "1 \<le> n" "n < 10000600009"
  shows "\<exists>m fs. trialDivision smallPrimes n [] = Returns (m, fs) \<and> (m = 1 \<or> is_prime m)"
proof -
  have "set smallPrimes = {q. is_prime q \<and> 2 \<le> q \<and> q \<le> 100000}"
    by (auto simp: set_smallPrimes is_prime_def)
  moreover have "\<forall>q. is_prime q \<and> q < 2 \<longrightarrow> \<not> q dvd n"
    by (auto simp: is_prime_def)
  ultimately obtain m fs where m: "trialDivision smallPrimes n [] = Returns (m, fs)"
    "1 \<le> m" "m \<le> n" "\<forall>q. is_prime q \<and> q dvd m \<longrightarrow> 100000 < q \<or> m < q * q"
    using trialDivision_remainder [OF sorted_smallPrimes _ assms(1), of 2 100000 "[]"] by blast
  have "is_prime m" if "m \<noteq> 1"
  proof (rule ccontr)
    assume "\<not> is_prime m"
    moreover have "2 \<le> m" using m(2) that by simp
    ultimately obtain q where q: "is_prime q" "q dvd m" "q * q \<le> m"
      using composite_prime_divisor by blast
    then have "100000 < q" using m(4) by force
    moreover have "q \<noteq> 100001" "q \<noteq> 100002" using q(1) not_prime_100001 by auto
    ultimately have "100003 \<le> q" by simp
    then have "100003 * 100003 \<le> q * q" by (intro mult_mono) simp_all
    then show False using q(3) m(3) assms(2) by simp
  qed
  then show ?thesis using m(1) by blast
qed

lemma factorize_returns:
  assumes "trialDivision smallPrimes n [] = Returns (m, fs)" "m = 1 \<or> is_prime m"
  shows "\<exists>fs' rs'. factorize (Suc fuel) n rs = Returns (fs', rs')"
proof (cases "m = 1")
  case True
  then show ?thesis using assms(1) by (simp add: factorize_def)
next
  case False
  then have "is_prime m" using assms(2) by simp
  then show ?thesis using factorize_prime_remainder [OF assms(1), of fuel rs] by blast
qed

text \<open>
  C2, amended. For every \<open>n \<ge> 1\<close> whose remainder after trial division is 1 or a prime, which
  covers every \<open>n\<close> below \<open>100003\<^sup>2 = 10000600009\<close>, and for every sequence of random values,
  \<open>factorize(n)\<close> returns a Factor Multiset, after at most one pass of the work-stack loop.
\<close>

theorem factorize_total_on_prime_remainder:
  "1 \<le> n \<Longrightarrow>
   n < 10000600009 \<or>
     (\<exists>m fs. trialDivision smallPrimes n [] = Returns (m, fs) \<and> (m = 1 \<or> is_prime m)) \<Longrightarrow>
   \<exists>fs rs'. factorize (Suc fuel) n rs = Returns (fs, rs')"
  using trialDivision_small_remainder [of n] factorize_returns [of n _ _ fuel rs] by blast

theorem factorize_total_on_prime_remainder_witness:
  "(1::int) \<le> 9999999999 \<and> (9999999999::int) < 10000600009 \<and>
   (\<exists>fs rs'. factorize (Suc 0) 9999999999 (\<lambda>_. 0) = Returns (fs, rs'))"
proof -
  have h: "(1::int) \<le> 9999999999" "(9999999999::int) < 10000600009" by simp_all
  from factorize_total_on_prime_remainder [OF h(1) disjI1 [OF h(2)]] h show ?thesis by blast
qed

section \<open>The message handler and what BigInt accepts\<close>

lemma andThen_Throws_iff:
  "andThen m f = Throws e \<longleftrightarrow> m = Throws e \<or> (\<exists>v. m = Returns v \<and> f v = Throws e)"
  by (cases m) simp_all

lemma randBigInt_no_SyntaxError: "randBigInt lo hi rs \<noteq> Throws SyntaxError"
  by (simp add: randBigInt_def nextRandom_def Let_def)

lemma modPow_no_SyntaxError: "modPow b e m \<noteq> Throws SyntaxError"
  by (simp add: modPow_def)

lemma splitPowerOfTwo_no_SyntaxError: "splitPowerOfTwo d r \<noteq> Throws SyntaxError"
proof (induction d r rule: splitPowerOfTwo.induct)
  case (1 d r)
  then show ?case by (subst splitPowerOfTwo.simps) simp
qed

lemma roundsLoop_no_SyntaxError: "roundsLoop k n d r rs \<noteq> Throws SyntaxError"
proof (induction k arbitrary: rs)
  case 0
  show ?case by simp
next
  case (Suc k)
  show ?case
    using Suc randBigInt_no_SyntaxError modPow_no_SyntaxError
    by (auto simp: andThen_Throws_iff)
qed

lemma isPrimeMillerRabin_no_SyntaxError: "isPrimeMillerRabin n k rs \<noteq> Throws SyntaxError"
  using splitPowerOfTwo_no_SyntaxError roundsLoop_no_SyntaxError
  by (auto simp: isPrimeMillerRabin_def andThen_Throws_iff)

lemma pollardRho_no_SyntaxError:
  "pollardRho fuel n rs \<noteq> Throws SyntaxError \<and> rhoLoop fuel n x y c rs \<noteq> Throws SyntaxError"
proof (induction fuel arbitrary: x y c rs)
  case 0
  show ?case using randBigInt_no_SyntaxError by (auto split: outcome.splits)
next
  case (Suc fuel)
  have loop: "rhoLoop (Suc fuel) n x y c rs \<noteq> Throws SyntaxError" for x y c rs
    unfolding rhoLoop_step Let_def using Suc by (simp del: pollardRho.simps rhoLoop.simps)
  have "pollardRho (Suc fuel) n rs \<noteq> Throws SyntaxError"
    by (subst pollardRho.simps)
      (auto split: outcome.splits simp: loop randBigInt_no_SyntaxError
        simp del: pollardRho.simps rhoLoop.simps)
  then show ?case using loop by simp
qed

lemma divideOut_no_SyntaxError: "divideOut p n fs \<noteq> Throws SyntaxError"
proof (induction p n fs rule: divideOut.induct)
  case (1 p n fs)
  then show ?case by (subst divideOut.simps) simp
qed

lemma trialDivision_no_SyntaxError: "trialDivision ps n fs \<noteq> Throws SyntaxError"
  using divideOut_no_SyntaxError
  by (induction ps arbitrary: n fs) (auto split: outcome.splits)

lemma loopBody_no_SyntaxError: "loopBody fuel target stack fs rs \<noteq> Throws SyntaxError"
  using isPrimeMillerRabin_no_SyntaxError pollardRho_no_SyntaxError
  by (auto simp: loopBody_def andThen_Throws_iff simp del: pollardRho.simps)

lemma stackLoop_no_SyntaxError: "stackLoop fuel stack fs rs \<noteq> Throws SyntaxError"
  using loopBody_no_SyntaxError
  by (induction fuel stack fs rs rule: stackLoop.induct) (auto split: outcome.splits)

lemma factorize_no_SyntaxError: "factorize fuel n rs \<noteq> Throws SyntaxError"
  using trialDivision_no_SyntaxError stackLoop_no_SyntaxError
  by (auto simp: factorize_def andThen_Throws_iff)

lemma digitValue_decimal:
  "isDecimalDigit c \<Longrightarrow> digitValue c = Some (of_char c - 48) \<and> of_char c - 48 < (10::nat)"
  by (auto simp: isDecimalDigit_def digitValue_def)

lemma decimal_not_white: "isDecimalDigit c \<Longrightarrow> \<not> isStrWhiteSpaceChar c"
  by (auto simp: isDecimalDigit_def isStrWhiteSpaceChar_def)

lemma parseDigits_decimal:
  "list_all isDecimalDigit s \<Longrightarrow>
   parseDigits 10 s acc = Some (foldl (\<lambda>acc c. acc * 10 + (of_char c - 48)) acc s)"
  by (induction s arbitrary: acc) (simp_all add: digitValue_decimal)

lemma trimString_decimal:
  assumes "isDecimalString s"
  shows "trimString s = s"
proof -
  obtain c cs where s: "s = c # cs" using assms by (cases s) (auto simp: isDecimalString_def)
  have "\<not> isStrWhiteSpaceChar c" using assms s by (simp add: isDecimalString_def decimal_not_white)
  then have 1: "dropWhile isStrWhiteSpaceChar s = s" using s by simp
  have ne: "s \<noteq> []" using s by simp
  then have "last s \<in> set s" by simp
  then have "isDecimalDigit (last s)" using assms by (simp add: isDecimalString_def list_all_iff)
  then have "isDecimalDigit (hd (rev s))" using ne by (simp add: hd_rev)
  moreover have "rev s \<noteq> []" using ne by simp
  ultimately have "dropWhile isStrWhiteSpaceChar (rev s) = rev s"
    by (cases "rev s") (auto simp: decimal_not_white)
  then show ?thesis by (simp add: trimString_def 1)
qed

lemma StringToBigInt_decimal:
  assumes "isDecimalString s"
  shows "StringToBigInt s = Some (int (decimalValue s))"
proof -
  obtain c cs where s: "s = c # cs" using assms by (cases s) (auto simp: isDecimalString_def)
  have c: "isDecimalDigit c" and cs: "list_all isDecimalDigit cs"
    using assms s by (simp_all add: isDecimalString_def)
  have "cs \<noteq> [] \<Longrightarrow> isDecimalDigit (hd cs)" using cs by (cases cs) simp_all
  then have radix: "\<not> (cs \<noteq> [] \<and> hd cs \<in> {CHR ''x'', CHR ''X'', CHR ''o'', CHR ''O'', CHR ''b'', CHR ''B''})"
    by (auto simp: isDecimalDigit_def)
  have sign: "c \<noteq> CHR ''+''" "c \<noteq> CHR ''-''" using c by (auto simp: isDecimalDigit_def)
  have "parseLiteral 10 (c # cs) = Some (int (decimalValue s))"
    using parseDigits_decimal [of s 0] assms s
    by (simp add: parseLiteral_def decimalValue_def isDecimalString_def)
  moreover have "trimString (c # cs) = c # cs" using trimString_decimal [OF assms] s by simp
  ultimately show ?thesis
    using radix sign unfolding StringToBigInt_def s by auto
qed

text \<open>
  The string \<open>-4\<close> is no non-negative decimal integer, yet \<open>BigInt\<close> accepts it and
  \<open>factorize(-4n)\<close> starts: it runs three passes of the work-stack loop, until
  \<open>pollardRho(-1n)\<close> returns \<open>0n\<close> and \<open>target / factor\<close> throws the RangeError that the handler
  reports. The string \<open>0x10\<close> is factored as 16 with no error at all.
\<close>

lemma BigInt_minus_4: "BigInt ''-4'' = Returns (- 4)"
  by (simp add: BigInt_def StringToBigInt_def trimString_def isStrWhiteSpaceChar_def
      parseLiteral_def digitValue_def)

lemma trialDivision_minus_4: "trialDivision smallPrimes (- 4) [] = Returns (- 4, [])"
proof -
  obtain rest where sp: "smallPrimes = 2 # 3 # 5 # 7 # rest" using smallPrimes_prefix by blast
  show ?thesis unfolding sp by simp
qed

lemma factorize_minus_4: "factorize 4 (- 4) (\<lambda>_. 0) = Throws RangeError"
proof -
  have 1: "loopBody (Suc (Suc (Suc 0))) (- 4) [] [] (\<lambda>_. 0) = Returns ([- 2, 2], [], \<lambda>_. 0)"
    by (simp add: loopBody_def isPrimeMillerRabin_def bigint_rem_def bigint_div_def)
  have 2: "loopBody (Suc (Suc 0)) (- 2) [2] [] (\<lambda>_. 0) = Returns ([- 1, 2, 2], [], \<lambda>_. 0)"
    by (simp add: loopBody_def isPrimeMillerRabin_def bigint_rem_def bigint_div_def)
  have "rhoLoop (Suc 0) (- 1) 2 2 1 (\<lambda>_. 0) = Returns (0, \<lambda>_. 0)"
    by (simp add: bigint_rem_def gcd_js.simps)
  then have "pollardRho (Suc 0) (- 1) (\<lambda>_. 0) = Returns (0, \<lambda>_. 0)"
    by (simp add: bigint_rem_def randBigInt_def nextRandom_def del: rhoLoop.simps)
  then have 3: "loopBody (Suc 0) (- 1) [2, 2] [] (\<lambda>_. 0) = Throws RangeError"
    by (simp add: loopBody_def isPrimeMillerRabin_def del: pollardRho.simps)
  have "stackLoop (Suc (Suc (Suc (Suc 0)))) [- 4] [] (\<lambda>_. 0) = Throws RangeError"
    using 1 2 3 by simp
  then have "factorize (Suc (Suc (Suc (Suc 0)))) (- 4) (\<lambda>_. 0) = Throws RangeError"
    by (simp add: factorize_def trialDivision_minus_4 del: stackLoop.simps)
  moreover have "(4::nat) = Suc (Suc (Suc (Suc 0)))" by simp
  ultimately show ?thesis by (simp only:)
qed

lemma onmessage_hexadecimal: "onmessage 0 ''0x10'' rs = Some (Success ''0x10'' [(2, 4)])"
proof -
  obtain rest where sp: "smallPrimes = 2 # 3 # 5 # 7 # rest" using smallPrimes_prefix by blast
  have "BigInt ''0x10'' = Returns 16"
    by (simp add: BigInt_def StringToBigInt_def trimString_def isStrWhiteSpaceChar_def
        parseLiteral_def digitValue_def)
  moreover have "trialDivision smallPrimes 16 [] = Returns (1, [(2, 4)])"
    unfolding sp by (simp add: divideOut.simps)
  ultimately show ?thesis by (simp add: onmessage_def factorize_def)
qed

text \<open>
  C3, as stated, fails at the input string \<open>-4\<close>: the error reported is not the parse
  error, and factorization has started.
\<close>

theorem onmessage_parse_error_counterexample:
  "\<not> isDecimalString ''-4'' \<and> BigInt ''-4'' = Returns (- 4) \<and>
   onmessage 4 ''-4'' (\<lambda>_. 0) = Some (Failure RangeError)"
  by (simp add: isDecimalString_def isDecimalDigit_def onmessage_def BigInt_minus_4
      factorize_minus_4)

text \<open>
  C3, amended. For every input string that \<open>BigInt\<close> rejects, the handler reports that
  SyntaxError, whatever the fuel: factorization never starts. For every non-empty string
  of decimal digits, \<open>BigInt\<close> returns the number it denotes, and the handler reports no
  SyntaxError.
\<close>

theorem onmessage_parse_error:
  "(BigInt s = Throws SyntaxError \<longrightarrow> onmessage fuel s rs = Some (Failure SyntaxError)) \<and>
   (isDecimalString s \<longrightarrow>
      BigInt s = Returns (int (decimalValue s)) \<and>
      onmessage fuel s rs \<noteq> Some (Failure SyntaxError))"
proof (intro conjI impI)
  assume "BigInt s = Throws SyntaxError"
  then show "onmessage fuel s rs = Some (Failure SyntaxError)" by (simp add: onmessage_def)
next
  assume "isDecimalString s"
  then show "BigInt s = Returns (int (decimalValue s))"
    by (simp add: BigInt_def StringToBigInt_decimal)
  then show "onmessage fuel s rs \<noteq> Some (Failure SyntaxError)"
    using factorize_no_SyntaxError [of fuel "int (decimalValue s)" rs]
    by (auto simp: onmessage_def split: outcome.splits)
qed

theorem onmessage_parse_error_witness:
  "BigInt ''12a'' = Throws SyntaxError \<and> onmessage 0 ''12a'' (\<lambda>_. 0) = Some (Failure SyntaxError) \<and>
   isDecimalString ''360'' \<and> BigInt ''360'' = Returns 360 \<and>
   onmessage 1 ''360'' (\<lambda>_. 0) \<noteq> Some (Failure SyntaxError)"
proof -
  have 1: "BigInt ''12a'' = Throws SyntaxError"
    by (simp add: BigInt_def StringToBigInt_def trimString_def isStrWhiteSpaceChar_def
        parseLiteral_def digitValue_def)
  have 2: "isDecimalString ''360''"
    by (simp add: isDecimalString_def isDecimalDigit_def)
  have 3: "int (decimalValue ''360'') = 360" by (simp add: decimalValue_def)
  from onmessage_parse_error [of "''12a''" 0 "\<lambda>_. 0"]
    onmessage_parse_error [of "''360''" 1 "\<lambda>_. 0"] 1 2 3
  show ?thesis by simp
qed

section \<open>The order of the keys of the result\<close>

subsection \<open>A primality criterion with a short certificate\<close>

lemma power_mod_one:
  fixes y n :: int
  assumes "1 < n" "y mod n = 1"
  shows "y ^ k mod n = 1"
proof -
  have "y ^ k mod n = (y mod n) ^ k mod n" by (simp add: power_mod)
  then show ?thesis using assms by simp
qed

lemma order_divides:
  fixes b q0 :: int
  assumes q0: "is_prime q0" and r: "is_prime r"
    and br: "b ^ nat r mod q0 = 1" and nb1: "b mod q0 \<noteq> 1"
  shows "r dvd q0 - 1"
proof (rule ccontr)
  assume nd: "\<not> r dvd q0 - 1"
  have q1: "1 < q0" using q0 by (simp add: is_prime_def)
  have r1: "1 < r" using r by (simp add: is_prime_def)
  have nb: "\<not> q0 dvd b"
  proof
    assume "q0 dvd b"
    moreover have "b dvd b ^ nat r" using r1 by (intro dvd_power) simp
    ultimately have "q0 dvd b ^ nat r" by (rule dvd_trans)
    then have "b ^ nat r mod q0 = 0" by simp
    then show False using br by simp
  qed
  define b' where "b' = b mod q0"
  have "0 \<le> b'" "b' < q0" using q1 by (simp_all add: b'_def)
  moreover have "b' \<noteq> 0" using nb by (simp add: b'_def dvd_eq_mod_eq_0)
  ultimately have "0 < b'" "b' < q0" by simp_all
  then have "b' ^ nat (q0 - 1) mod q0 = 1" using q0 by (intro fermat_little)
  then have fermat: "b ^ nat (q0 - 1) mod q0 = 1" by (simp add: b'_def power_mod)
  define R where "R = nat r"
  define Q where "Q = nat (q0 - 1)"
  have "coprime r (q0 - 1)" using r nd by (rule is_prime_coprime)
  then have "gcd (int R) (int Q) = 1"
    using r1 q1 by (simp add: R_def Q_def coprime_iff_gcd_eq_1)
  then have "int (gcd R Q) = 1" by simp
  then have "gcd R Q = 1" by simp
  moreover have "R \<noteq> 0" using r1 by (simp add: R_def)
  ultimately obtain x y where xy: "R * x = Q * y + 1" using bezout_nat [of R Q] by auto
  have "(b ^ R) ^ x mod q0 = 1"
    using q1 br by (intro power_mod_one [of q0 "b ^ R"]) (simp_all add: R_def)
  then have "b ^ (R * x) mod q0 = 1" by (simp add: power_mult)
  moreover have "b ^ (Q * y + 1) mod q0 = ((b ^ Q) ^ y mod q0) * b mod q0"
    by (simp add: power_add power_mult mod_mult_left_eq mod_mult_right_eq mult.commute)
  moreover have "(b ^ Q) ^ y mod q0 = 1"
    using fermat q1 by (intro power_mod_one [of q0 "b ^ Q"]) (simp_all add: Q_def)
  ultimately have "b mod q0 = 1" using xy by simp
  then show False using nb1 by simp
qed

lemma pocklington:
  fixes p r m a x :: int
  assumes r: "is_prime r" and p: "1 < p" and fact: "p - 1 = r * m"
    and small: "p < (r + 1) * (r + 1)"
    and one: "a ^ nat (p - 1) mod p = 1" and x: "a ^ nat m mod p = x" and g: "gcd (x - 1) p = 1"
  shows "is_prime p"
proof (rule ccontr)
  assume "\<not> is_prime p"
  then obtain q0 where q0: "is_prime q0" "q0 dvd p" "q0 * q0 \<le> p"
    using composite_prime_divisor [of p] p by auto
  have q1: "1 < q0" using q0(1) by (simp add: is_prime_def)
  have r1: "1 < r" using r by (simp add: is_prime_def)
  have m: "0 < m"
  proof -
    have "0 < r * m" using fact p by simp
    then show ?thesis using r1 by (simp add: zero_less_mult_iff)
  qed
  define b where "b = a ^ nat m"
  have "b ^ nat r = a ^ nat (p - 1)"
    using r1 m by (simp add: b_def fact power_mult [symmetric] nat_mult_distrib mult.commute)
  then have "p dvd b ^ nat r - 1" using one p by (simp add: mod_eq_dvd_iff [symmetric])
  then have "q0 dvd b ^ nat r - 1" using q0(2) by (rule dvd_trans [rotated])
  then have br: "b ^ nat r mod q0 = 1" using q1 by (simp add: mod_eq_dvd_iff [symmetric])
  have nb1: "b mod q0 \<noteq> 1"
  proof
    assume "b mod q0 = 1"
    then have "q0 dvd b - 1" using q1 by (simp add: mod_eq_dvd_iff [symmetric])
    moreover have "p dvd b - b mod p" by (simp add: minus_mod_eq_div_mult)
    then have "p dvd b - x" using x by (simp add: b_def)
    then have "q0 dvd b - x" using q0(2) by (rule dvd_trans [rotated])
    ultimately have "q0 dvd (b - 1) - (b - x)" by (rule dvd_diff)
    then have "q0 dvd x - 1" by simp
    then have "q0 dvd gcd (x - 1) p" using q0(2) by simp
    then show False using g q1 by simp
  qed
  have "r dvd q0 - 1" using q0(1) r br nb1 by (rule order_divides)
  then have "r \<le> q0 - 1" using q1 by (intro zdvd_imp_le) simp_all
  then have "(r + 1) * (r + 1) \<le> q0 * q0" using r1 by (intro mult_mono) simp_all
  then show False using q0(3) small by simp
qed

lemma modPow_power:
  assumes "modPow a e m = Returns x" "0 \<le> a" "0 \<le> e" "2 \<le> m"
  shows "a ^ nat e mod m = x"
  using modPow_correct [OF assms(2,3,4)] assms(1) by simp

lemma is_prime_4295328857: "is_prime 4295328857"
proof (rule pocklington [of 100003 _ 42952 2 1466388692])
  show "is_prime 100003" by (rule is_prime_100003)
  show "(2::int) ^ nat (4295328857 - 1) mod 4295328857 = 1"
    by (rule modPow_power) (simp_all add: modPow_def modPowLoop.simps)
  show "(2::int) ^ nat 42952 mod 4295328857 = 1466388692"
    by (rule modPow_power) (simp_all add: modPow_def modPowLoop.simps)
  have "gcd_js (1466388692 - 1) 4295328857 = 1" by (simp add: gcd_js.simps)
  then show "gcd (1466388692 - 1) (4295328857 :: int) = 1"
    using gcd_js_eq_gcd [of "1466388692 - 1" 4295328857] by simp
qed simp_all

lemma is_prime_4295528863: "is_prime 4295528863"
proof (rule pocklington [of 100003 _ 42954 2 3645270553])
  show "is_prime 100003" by (rule is_prime_100003)
  show "(2::int) ^ nat (4295528863 - 1) mod 4295528863 = 1"
    by (rule modPow_power) (simp_all add: modPow_def modPowLoop.simps)
  show "(2::int) ^ nat 42954 mod 4295528863 = 3645270553"
    by (rule modPow_power) (simp_all add: modPow_def modPowLoop.simps)
  have "gcd_js (3645270553 - 1) 4295528863 = 1" by (simp add: gcd_js.simps)
  then show "gcd (3645270553 - 1) (4295528863 :: int) = 1"
    using gcd_js_eq_gcd [of "3645270553 - 1" 4295528863] by simp
qed simp_all

subsection \<open>Two large prime factors listed in descending order\<close>

lemma trialDivision_prime_product:
  assumes "is_prime p" "is_prime q" "100000 < p" "100000 < q"
  shows "trialDivision smallPrimes (p * q) [] = Returns (p * q, [])"
proof (rule trialDivision_no_divisor)
  have "1 * 1 \<le> p * q" using assms(3,4) by (intro mult_mono) simp_all
  then show "1 \<le> p * q" by simp
  show "\<forall>s\<in>set smallPrimes. 2 \<le> s \<and> \<not> s dvd p * q"
  proof
    fix s assume "s \<in> set smallPrimes"
    then have s: "is_prime s" "s \<le> 100000" "2 \<le> s"
      by (simp_all add: set_smallPrimes is_prime_def)
    have "\<not> s dvd p * q"
    proof
      assume "s dvd p * q"
      then have "s dvd p \<or> s dvd q" using is_prime_dvd_mult [OF s(1)] by blast
      then have "s = 1 \<or> s = p \<or> s = q"
        using is_primeD [OF assms(1), of s] is_primeD [OF assms(2), of s] s(3) by auto
      then show False using s assms(3,4) by simp
    qed
    with s show "2 \<le> s \<and> \<not> s dvd p * q" by simp
  qed
qed

lemma loopBody_prime:
  assumes "is_prime m"
  shows "\<exists>rs'. loopBody fuel m stack fs rs = Returns (stack, increment fs m, rs')"
proof -
  obtain rs1 where "isPrimeMillerRabin m 5 rs = Returns (True, rs1)"
    using isPrimeMillerRabin_prime [OF assms] by blast
  moreover have "m \<noteq> 1" using assms by (auto simp: is_prime_def)
  ultimately show ?thesis by (simp add: loopBody_def)
qed

lemma ownKeys_sorted_indices:
  assumes "\<forall>k\<in>set (map fst fs). isArrayIndex k"
  shows "sorted (ownKeys fs)"
proof -
  have "filter (\<lambda>k. \<not> isArrayIndex k) (map fst fs) = []"
    using assms by (simp add: filter_empty_conv)
  then show ?thesis by (simp add: ownKeys_def)
qed

text \<open>
  The input \<open>4295328857 \<times> 4295528863\<close>, both primes above \<open>2^32\<close>, with the random source stuck
  at 4295328854: the first round of the primality test shows the product composite,
  \<open>pollardRho\<close> returns the smaller prime at once, the larger one is popped and recorded
  first, and neither key is an array index.
\<close>

lemma millerRabin_product:
  "isPrimeMillerRabin 18450709081320299591 5 (\<lambda>_. 4295328854)
     = Returns (False, \<lambda>_. 4295328854)"
proof -
  have "splitPowerOfTwo 18450709081320299590 0 = Returns (9225354540660149795, 1)"
    by (simp add: splitPowerOfTwo.simps)
  moreover have "modPow 4295328856 9225354540660149795 18450709081320299591
      = Returns 7453884641435842760"
    by (simp add: modPow_def modPowLoop.simps)
  moreover have "\<not> squareLoop 0 1 7453884641435842760 18450709081320299591"
    by (simp add: squareLoop.simps)
  ultimately show ?thesis
    by (simp add: isPrimeMillerRabin_def roundsLoop_numeral randBigInt_def nextRandom_def)
qed

lemma pollardRho_product:
  "pollardRho (Suc fuel) 18450709081320299591 (\<lambda>_. 4295328854)
     = Returns (4295328857, \<lambda>_. 4295328854)"
proof -
  have "gcd_js 16355116185757147187 18450709081320299591 = 4295328857"
    by (simp add: gcd_js.simps)
  then have "rhoLoop (Suc fuel) 18450709081320299591 4295328856 4295328856 4295328855
      (\<lambda>_. 4295328854) = Returns (4295328857, \<lambda>_. 4295328854)"
    by (simp del: pollardRho.simps)
  then show ?thesis
    by (simp add: randBigInt_def nextRandom_def del: rhoLoop.simps)
qed

lemma factorize_product_of_large_primes:
  "\<exists>rs'. factorize (Suc (Suc (Suc fuel))) 18450709081320299591 (\<lambda>_. 4295328854)
     = Returns ([(4295528863, 1), (4295328857, 1)], rs')"
proof -
  have td: "trialDivision smallPrimes 18450709081320299591 []
      = Returns (18450709081320299591, [])"
    using trialDivision_prime_product [OF is_prime_4295328857 is_prime_4295528863] by simp
  have 1: "loopBody (Suc (Suc fuel)) 18450709081320299591 [] [] (\<lambda>_. 4295328854)
      = Returns ([4295528863, 4295328857], [], \<lambda>_. 4295328854)"
    by (simp add: loopBody_def millerRabin_product pollardRho_product
        del: pollardRho.simps)
  obtain rs2 where 2: "loopBody (Suc fuel) 4295528863 [4295328857] [] (\<lambda>_. 4295328854)
      = Returns ([4295328857], [(4295528863, 1)], rs2)"
    using loopBody_prime [OF is_prime_4295528863, of "Suc fuel" "[4295328857]" "[]"] by auto
  obtain rs3 where 3: "loopBody fuel 4295328857 [] [(4295528863, 1)] rs2
      = Returns ([], [(4295528863, 1), (4295328857, 1)], rs3)"
    using loopBody_prime [OF is_prime_4295328857, of fuel "[]" "[(4295528863, 1)]" rs2] by auto
  have "stackLoop (Suc (Suc (Suc fuel))) [18450709081320299591] [] (\<lambda>_. 4295328854)
      = Returns ([(4295528863, 1), (4295328857, 1)], rs3)"
    using 1 2 3 by simp
  then show ?thesis by (simp add: factorize_def td del: stackLoop.simps)
qed

text \<open>
  C9. The keys of the returned object are not always listed in ascending order: of
  \<open>factorize(18450709081320299591)\<close> with every draw equal to 4295328854 the listing is
  4295528863, then 4295328857.
\<close>

theorem factorize_keys_not_ascending:
  "(\<exists>rs'. factorize 3 18450709081320299591 (\<lambda>_. 4295328854)
      = Returns ([(4295528863, 1), (4295328857, 1)], rs')) \<and>
   ownKeys [(4295528863, 1), (4295328857, 1)] = [4295528863, 4295328857] \<and>
   \<not> sorted (ownKeys [(4295528863, 1), (4295328857, 1)]) \<and>
   (4295328854::nat) < MAX_SAFE_INTEGER"
proof -
  have "(3::nat) = Suc (Suc (Suc 0))" by simp
  then have "\<exists>rs'. factorize 3 18450709081320299591 (\<lambda>_. 4295328854)
      = Returns ([(4295528863, 1), (4295328857, 1)], rs')"
    using factorize_product_of_large_primes [of 0] by (simp only:)
  moreover have "ownKeys [(4295528863, 1), (4295328857, 1)] = [4295528863, 4295328857]"
    by (simp add: ownKeys_def isArrayIndex_def)
  ultimately show ?thesis by (simp add: MAX_SAFE_INTEGER_def)
qed

end
